theory Spec2Isabelle
  imports Complex_Main "HOL-Library.AList" "HOL-Library.Multiset" "HOL-Library.Char_ord"
begin

section \<open>Banter-Chess: the embed script \<open>src/js/embed.js\<close>\<close>

text \<open>
  The script renders a chess board in a 3D scene and keeps the rendered pieces in step
  with the FEN of a rules engine. The model below follows the script function by
  function. JavaScript objects whose identity matters (the rendered pieces) carry an
  object identifier; JavaScript property bags whose enumeration order matters
  (\<open>state.pieces\<close>, \<open>newBoardState\<close>, \<open>availablePieces\<close>) are association lists in
  enumeration order; everything the script does to the scene, to the console and to the
  shared property store is an \<open>effect\<close>, returned in the order of occurrence.

  Modelling decisions, all of them stated where they apply:
  \<^item> strings are lists of 8-bit characters;
  \<^item> JavaScript numbers are exact rationals, \<open>None\<close> standing for \<open>NaN\<close>;
  \<^item> an \<open>async\<close> function runs to completion before anything else touches the state
    (the script awaits its scene calls one after the other);
  \<^item> the rules engine \<open>chess.js\<close> and \<open>JSON.parse\<close> are not part of the repository and
    are parameters of the model.
\<close>

subsection \<open>Strings and numbers of the host language\<close>

type_synonym number = "rat option"

type_synonym vector3 = "number \<times> number \<times> number"

text \<open>\<open>s[i]\<close>: the character at an index, \<open>undefined\<close> (here \<open>None\<close>) out of range.\<close>

definition char_at :: "string \<Rightarrow> nat \<Rightarrow> char option" where
  "char_at s i = (if i < length s then Some (s ! i) else None)"

text \<open>\<open>Array.prototype.indexOf\<close>: the first index of a value, \<open>-1\<close> when absent.\<close>

fun indexOf :: "'a list \<Rightarrow> 'a \<Rightarrow> int" where
  "indexOf [] v = - 1"
| "indexOf (x # xs) v =
     (if x = v then 0 else (let i = indexOf xs v in if i < 0 then - 1 else i + 1))"

text \<open>
  \<open>parseInt\<close> of a single character: its value for a decimal digit, \<open>NaN\<close> otherwise
  (also for \<open>undefined\<close>).
\<close>

definition parseInt :: "char option \<Rightarrow> int option" where
  "parseInt c =
     (case c of
        None \<Rightarrow> None
      | Some d \<Rightarrow> (let i = indexOf ''0123456789'' d in if i < 0 then None else Some i))"

text \<open>\<open>String.prototype.toLowerCase\<close> on one character (ASCII letters; others unchanged).\<close>

definition toLowerCase :: "char \<Rightarrow> char" where
  "toLowerCase c =
     (case map_of (zip ''ABCDEFGHIJKLMNOPQRSTUVWXYZ'' ''abcdefghijklmnopqrstuvwxyz'') c of
        None \<Rightarrow> c
      | Some l \<Rightarrow> l)"

text \<open>Decimal rendering of an integer, as a template literal \<open>`${n}`\<close> does.\<close>

fun digits_of :: "nat \<Rightarrow> string" where
  "digits_of n =
     (if n < 10 then [''0123456789'' ! n]
      else digits_of (n div 10) @ [''0123456789'' ! (n mod 10)])"

definition string_of_int :: "int \<Rightarrow> string" where
  "string_of_int i = (if i < 0 then CHR ''-'' # digits_of (nat (- i)) else digits_of (nat i))"

text \<open>\<open>String.prototype.split\<close> with a one-character separator.\<close>

fun split_on :: "char \<Rightarrow> string \<Rightarrow> string list" where
  "split_on sep [] = [[]]"
| "split_on sep (c # cs) =
     (if c = sep then [] # split_on sep cs
      else (case split_on sep cs of
              [] \<Rightarrow> [[c]]
            | r # rs \<Rightarrow> (c # r) # rs))"

text \<open>
  Truthiness of a string-valued expression that may be \<open>null\<close>/\<open>undefined\<close>: the empty
  string is falsy as well.
\<close>

definition truthy :: "string option \<Rightarrow> bool" where
  "truthy v = (case v of None \<Rightarrow> False | Some s \<Rightarrow> s \<noteq> [])"

subsection \<open>Board geometry: \<open>state.offset\<close>, \<open>getSquarePos\<close>, \<open>getPiecePos\<close>\<close>

type_synonym square = string

definition letters :: string where
  "letters = ''abcdefgh''"

definition tileSize :: rat where
  "tileSize = 1 / 2"

definition boardSize :: rat where
  "boardSize = 8"

definition offset :: rat where
  "offset = (boardSize * tileSize) / 2 - (tileSize / 2)"

definition getSquarePos :: "square \<Rightarrow> vector3" where
  "getSquarePos squareId =
     (let size = tileSize;
          xIndex = (case char_at squareId 0 of None \<Rightarrow> - 1 | Some c \<Rightarrow> indexOf letters c);
          rank = parseInt (char_at squareId 1);
          xPos = (of_int xIndex * size) - offset;
          zPos = map_option (\<lambda>r. - ((of_int r - 1) * size) + offset) rank
      in (Some xPos, Some (15 / 100), zPos))"

definition Y_ADJUSTMENTS :: "(char \<times> rat) list" where
  "Y_ADJUSTMENTS =
     [(CHR ''r'', - (1 / 100)), (CHR ''n'', 4 / 100), (CHR ''b'', 3 / 100),
      (CHR ''q'', 1 / 10), (CHR ''k'', 11 / 100)]"

text \<open>
  \<open>if (Y_ADJUSTMENTS[type]) pos.y += Y_ADJUSTMENTS[type]\<close>: a missing entry and a zero
  entry both leave the height alone.
\<close>

definition getPiecePos :: "square \<Rightarrow> char \<Rightarrow> vector3" where
  "getPiecePos squareId char =
     (case getSquarePos squareId of
        (px, py, pz) \<Rightarrow>
          (case map_of Y_ADJUSTMENTS (toLowerCase char) of
             None \<Rightarrow> (px, py, pz)
           | Some adj \<Rightarrow> (if adj \<noteq> 0 then (px, map_option (\<lambda>y. y + adj) py, pz) else (px, py, pz))))"

subsection \<open>Rendered pieces, effects and the host\<close>

text \<open>
  A rendered piece is a scene object: \<open>oid\<close> is its identity, \<open>pieceType\<close> the descriptor
  character \<open>createPiece\<close> stores on it (never reassigned afterwards).
\<close>

record piece =
  oid :: nat
  pieceType :: char

text \<open>
  What the script does to the outside, in order. The console constructors stand for the
  script's diagnostic lines: \<open>SyncStart\<close> and \<open>SyncDone\<close> for the two \<open>console.log\<close> lines
  of \<open>syncBoard\<close>, \<open>NoModel\<close> and \<open>CreateFailed\<close> for the two \<open>console.error\<close> lines of
  \<open>createPiece\<close>, \<open>LoadFailed\<close> for the one of \<open>loadFen\<close>, \<open>InvalidMove\<close> for the
  \<open>console.warn\<close> of \<open>makeMove\<close>, \<open>ParseFailed\<close> for the \<open>console.error\<close> lines of the
  shared-state consumers. Purely informational \<open>console.log\<close> lines are left out.
\<close>

datatype effect =
    SyncStart
  | SyncDone
  | NewContainer
  | NewPiece piece square vector3
  | NoModel char
  | CreateFailed char square
  | Relocate piece vector3
  | Destroy piece
  | LoadFailed string
  | InvalidMove square square
  | ParseFailed
  | SetPublicSpaceProps string string

text \<open>
  The host's side of object creation, a pair: the identity the next created object
  gets, and, for the coming creation attempts that reach the scene calls, in order,
  whether one of those calls throws inside \<open>createPiece\<close> (\<open>True\<close>; the \<open>catch\<close> then
  makes \<open>createPiece\<close> return \<open>null\<close>); once the list is used up no call throws.
\<close>

type_synonym host = "nat \<times> bool list"

definition PIECE_MODELS :: "(char \<times> string) list" where
  "PIECE_MODELS =
     [(CHR ''p'', ''Pawn.glb''), (CHR ''r'', ''Rook.glb''), (CHR ''n'', ''Knight.glb''),
      (CHR ''b'', ''Bishop.glb''), (CHR ''q'', ''Queen.glb''), (CHR ''k'', ''King.glb'')]"

definition createPiece :: "char \<Rightarrow> square \<Rightarrow> host \<Rightarrow> piece option \<times> effect list \<times> host" where
  "createPiece char squareId h =
     (case h of
        (n, fs) \<Rightarrow>
          (case map_of PIECE_MODELS (toLowerCase char) of
             None \<Rightarrow> (None, [NoModel (toLowerCase char)], (n, fs))
           | Some modelName \<Rightarrow>
               (case fs of
                  True # fs' \<Rightarrow> (None, [CreateFailed char squareId], (n, fs'))
                | _ \<Rightarrow>
                    (let p = \<lparr>oid = n, pieceType = char\<rparr>
                     in (Some p, [NewPiece p squareId (getPiecePos squareId char)],
                         (Suc n, tl fs))))))"

subsection \<open>\<open>syncBoard\<close>: decoding the placement field\<close>

text \<open>
  The key \<open>`${letters[fileIndex]}${rank}`\<close>: past the eighth file \<open>letters[fileIndex]\<close> is
  \<open>undefined\<close> and the template prints that word.
\<close>

definition square_key :: "nat \<Rightarrow> int \<Rightarrow> square" where
  "square_key fileIndex rank =
     (if fileIndex < length letters then [letters ! fileIndex] else ''undefined'')
     @ string_of_int rank"

text \<open>
  One row of the placement field. \<open>if (parseInt(char))\<close> is taken for the digits 1 to 9;
  the digit 0 and every other character are stored as a descriptor. Assigning to a key
  already present keeps its place in the enumeration order (\<open>AList.update\<close>).
\<close>

fun decode_row :: "string \<Rightarrow> int \<Rightarrow> nat \<Rightarrow> (square \<times> char) list \<Rightarrow> (square \<times> char) list" where
  "decode_row [] rank fileIndex newBoardState = newBoardState"
| "decode_row (char # row) rank fileIndex newBoardState =
     (case parseInt (Some char) of
        None \<Rightarrow>
          decode_row row rank (fileIndex + 1)
            (AList.update (square_key fileIndex rank) char newBoardState)
      | Some n \<Rightarrow>
          (if n \<noteq> 0 then decode_row row rank (fileIndex + nat n) newBoardState
           else decode_row row rank (fileIndex + 1)
                  (AList.update (square_key fileIndex rank) char newBoardState)))"

fun decode_rows :: "string list \<Rightarrow> nat \<Rightarrow> (square \<times> char) list \<Rightarrow> (square \<times> char) list" where
  "decode_rows [] rowIndex newBoardState = newBoardState"
| "decode_rows (row # rows) rowIndex newBoardState =
     decode_rows rows (Suc rowIndex) (decode_row row (8 - int rowIndex) 0 newBoardState)"

definition decode_fen :: "string \<Rightarrow> (square \<times> char) list" where
  "decode_fen fen =
     decode_rows (split_on CHR ''/'' (takeWhile (\<lambda>c. c \<noteq> CHR '' '') fen)) 0 []"

subsection \<open>\<open>syncBoard\<close>: the reuse pool and the two passes\<close>

type_synonym pool = "(char \<times> piece list) list"

text \<open>
  \<open>availablePieces[type].push(p)\<close>, after creating the list when the key is new.
\<close>

definition pool_push :: "piece \<Rightarrow> pool \<Rightarrow> pool" where
  "pool_push p availablePieces =
     AList.map_default (pieceType p) [p] (\<lambda>list. list @ [p]) availablePieces"

definition make_pool :: "(square \<times> piece) list \<Rightarrow> pool" where
  "make_pool pieces = fold pool_push (map snd pieces) []"

text \<open>
  \<open>Object.values\<close> of the pool: keys that are array indices (here the digits) come first,
  in ascending order, then the other keys in insertion order.
\<close>

definition own_values :: "(char \<times> 'a) list \<Rightarrow> 'a list" where
  "own_values al =
     map snd (sort_key fst (filter (\<lambda>kv. fst kv \<in> set ''0123456789'') al))
     @ map snd (filter (\<lambda>kv. fst kv \<notin> set ''0123456789'') al)"

text \<open>
  Pass 1. A target square whose current object has the wanted descriptor keeps it, and
  the object leaves the pool (\<open>indexOf\<close> and \<open>splice\<close> remove its first occurrence); every
  other target square is pending.
\<close>

fun pass1 ::
  "(square \<times> piece) list \<Rightarrow> (square \<times> char) list \<Rightarrow> pool \<Rightarrow> (square \<times> piece) list \<Rightarrow>
   (square \<times> char) list \<Rightarrow> pool \<times> (square \<times> piece) list \<times> (square \<times> char) list" where
  "pass1 pieces [] availablePieces nextPiecesMap pendingSquares =
     (availablePieces, nextPiecesMap, pendingSquares)"
| "pass1 pieces ((sq, char) # entries) availablePieces nextPiecesMap pendingSquares =
     (case map_of pieces sq of
        None \<Rightarrow>
          pass1 pieces entries availablePieces nextPiecesMap (pendingSquares @ [(sq, char)])
      | Some existingPieceOnSquare \<Rightarrow>
          (if pieceType existingPieceOnSquare = char
           then pass1 pieces entries
                  (AList.map_entry char (remove1 existingPieceOnSquare) availablePieces)
                  (AList.update sq existingPieceOnSquare nextPiecesMap) pendingSquares
           else pass1 pieces entries availablePieces nextPiecesMap
                  (pendingSquares @ [(sq, char)])))"

text \<open>
  Pass 2. A pending square takes the last object of its descriptor's pool list
  (\<open>pop\<close>) and moves it, or has a new object created; a failed creation leaves the square
  without an entry.
\<close>

fun pass2 ::
  "(square \<times> char) list \<Rightarrow> pool \<Rightarrow> (square \<times> piece) list \<Rightarrow> host \<Rightarrow> effect list \<Rightarrow>
   pool \<times> (square \<times> piece) list \<times> host \<times> effect list" where
  "pass2 [] availablePieces nextPiecesMap h out = (availablePieces, nextPiecesMap, h, out)"
| "pass2 ((sq, char) # pendingSquares) availablePieces nextPiecesMap h out =
     (case map_of availablePieces char of
        Some (x # xs) \<Rightarrow>
          (let piece = last (x # xs)
           in pass2 pendingSquares (AList.map_entry char butlast availablePieces)
                (AList.update sq piece nextPiecesMap) h
                (out @ [Relocate piece (getPiecePos sq char)]))
      | _ \<Rightarrow>
          (case createPiece char sq h of
             (None, evs, h') \<Rightarrow> pass2 pendingSquares availablePieces nextPiecesMap h' (out @ evs)
           | (Some piece, evs, h') \<Rightarrow>
               pass2 pendingSquares availablePieces (AList.update sq piece nextPiecesMap) h'
                 (out @ evs)))"

text \<open>
  Steps 1 to 6 of \<open>syncBoard\<close> for a given FEN and piece map: decode, pool, pass 1,
  pass 2, destroy what is left in the pool, and hand back the new piece map.
\<close>

definition reconcile ::
  "string \<Rightarrow> (square \<times> piece) list \<Rightarrow> host \<Rightarrow> effect list \<times> (square \<times> piece) list \<times> host" where
  "reconcile fen pieces h =
     (case pass1 pieces (decode_fen fen) (make_pool pieces) [] [] of
        (pool1, next1, pendingSquares) \<Rightarrow>
          (case pass2 pendingSquares pool1 next1 h [] of
             (pool2, nextPiecesMap, h', out) \<Rightarrow>
               (out @ map Destroy (concat (own_values pool2)), nextPiecesMap, h')))"

subsection \<open>The rules engine and the client state\<close>

text \<open>
  The rules engine (\<open>chess.js\<close>, loaded from a CDN) is a parameter: a state type \<open>'e\<close>
  and the operations the script calls. An operation that can throw returns \<open>Threw\<close> with
  the engine it leaves behind, or \<open>Returned\<close> with the truthiness of its result and the
  engine it leaves behind. \<open>chess_get\<close> is the truthiness of \<open>chess.get(square)\<close>,
  \<open>chess_moves\<close> the \<open>to\<close> fields of \<open>chess.moves({square, verbose: true})\<close>.
\<close>

datatype 'e result = Threw 'e | Returned bool 'e

record 'e engine =
  chess_reset :: "'e \<Rightarrow> 'e"
  chess_load :: "string \<Rightarrow> 'e \<Rightarrow> 'e result"
  chess_move :: "square \<Rightarrow> square \<Rightarrow> char \<Rightarrow> 'e \<Rightarrow> 'e result"
  chess_fen :: "'e \<Rightarrow> string"
  chess_get :: "square \<Rightarrow> 'e \<Rightarrow> bool"
  chess_moves :: "square \<Rightarrow> 'e \<Rightarrow> square list"

text \<open>
  The script's \<open>state\<close> object together with \<open>window.chessGame.chess\<close> and the host's
  side of object creation. A tile is its material colour: the hex string handed to
  \<open>setMaterialColor\<close> and the alpha that function computes; \<open>tiles\<close> is \<open>None\<close> where
  \<open>state.tiles\<close> has no entry.
\<close>

type_synonym color = "string \<times> rat"

record 'e state =
  chess :: 'e
  tiles :: "square \<Rightarrow> color option"
  pieces :: "(square \<times> piece) list"
  selectedSquare :: "square option"
  piecesRoot :: bool
  listenersSetup :: bool
  scene :: host

record config =
  instance_id :: string
  hideBoard :: bool

subsection \<open>\<open>syncBoard\<close>\<close>

definition syncBoard :: "'e engine \<Rightarrow> 'e state \<Rightarrow> effect list \<times> 'e state" where
  "syncBoard E st =
     (let root = (if piecesRoot st then [] else [NewContainer]);
          fen = chess_fen E (chess st)
      in (case reconcile fen (pieces st) (scene st) of
            (out, nextPiecesMap, h') \<Rightarrow>
              (SyncStart # root @ out @ [SyncDone],
               st\<lparr>piecesRoot := True, pieces := nextPiecesMap, scene := h'\<rparr>)))"

subsection \<open>\<open>ChessGame\<close>: the wrapper around the rules engine\<close>

text \<open>
  \<open>loadFen\<close> answers \<open>true\<close> whenever \<open>chess.load\<close> returns, whatever it returns, and
  \<open>false\<close> (with a diagnostic) when it throws. \<open>makeMove\<close> answers \<open>true\<close> when
  \<open>chess.move\<close> returns a truthy result.
\<close>

definition loadFen :: "'e engine \<Rightarrow> string \<Rightarrow> 'e \<Rightarrow> bool \<times> effect list \<times> 'e" where
  "loadFen E fen c =
     (case chess_load E fen c of
        Returned r c' \<Rightarrow> (True, [], c')
      | Threw c' \<Rightarrow> (False, [LoadFailed fen], c'))"

definition makeMove ::
  "'e engine \<Rightarrow> square \<Rightarrow> square \<Rightarrow> char \<Rightarrow> 'e \<Rightarrow> bool \<times> effect list \<times> 'e" where
  "makeMove E from_sq to_sq promotion c =
     (case chess_move E from_sq to_sq promotion c of
        Returned r c' \<Rightarrow> (r, [], c')
      | Threw c' \<Rightarrow> (False, [InvalidMove from_sq to_sq], c'))"

subsection \<open>Tiles and selection: \<open>setMaterialColor\<close>, \<open>clearSelection\<close>, \<open>handleSquareClick\<close>\<close>

definition COLORS_white :: string where
  "COLORS_white = ''#EEEEEE''"

definition COLORS_black :: string where
  "COLORS_black = ''#333333''"

definition COLORS_selected :: string where
  "COLORS_selected = ''#76F250''"

definition COLORS_valid :: string where
  "COLORS_valid = ''#50ABF2''"

text \<open>
  \<open>if (state.tiles[id]) setMaterialColor(state.tiles[id], hex)\<close>, for the tile of a
  square: nothing happens where there is no tile; with \<open>hideBoard\<close> the alpha is one half
  for the two highlight colours and zero for the others.
\<close>

definition material_color :: "config \<Rightarrow> string \<Rightarrow> color" where
  "material_color cfg hexColor =
     (hexColor,
      if hideBoard cfg
      then (if hexColor = COLORS_selected \<or> hexColor = COLORS_valid then 1 / 2 else 0)
      else 1)"

definition setMaterialColor ::
  "config \<Rightarrow> square \<Rightarrow> string \<Rightarrow> (square \<Rightarrow> color option) \<Rightarrow> (square \<Rightarrow> color option)" where
  "setMaterialColor cfg sid hexColor ts =
     (case ts sid of
        None \<Rightarrow> ts
      | Some old \<Rightarrow> ts(sid \<mapsto> material_color cfg hexColor))"

text \<open>The identifier \<open>`${letters[x]}${z + 1}`\<close> and the base colour of a tile.\<close>

definition tile_id :: "nat \<Rightarrow> nat \<Rightarrow> square" where
  "tile_id x z = [letters ! x] @ string_of_int (int z + 1)"

definition base_color :: "nat \<Rightarrow> nat \<Rightarrow> string" where
  "base_color x z = (if (x + z) mod 2 = 1 then COLORS_white else COLORS_black)"

definition clearSelection :: "config \<Rightarrow> 'e state \<Rightarrow> 'e state" where
  "clearSelection cfg st =
     st\<lparr>selectedSquare := None,
        tiles :=
          fold (\<lambda>xz. setMaterialColor cfg (tile_id (fst xz) (snd xz)) (base_color (fst xz) (snd xz)))
            (List.product [0..<8] [0..<8]) (tiles st)\<rparr>"

text \<open>
  \<open>generateTiles\<close>: the 64 tiles in their base colours, then the first sync.
\<close>

definition generateTiles :: "'e engine \<Rightarrow> config \<Rightarrow> 'e state \<Rightarrow> effect list \<times> 'e state" where
  "generateTiles E cfg st =
     syncBoard E
       (st\<lparr>tiles :=
             fold (\<lambda>xz ts. ts(tile_id (fst xz) (snd xz) \<mapsto>
                                material_color cfg (base_color (fst xz) (snd xz))))
               (List.product [0..<8] [0..<8]) (tiles st)\<rparr>)"

text \<open>
  \<open>handleSquareClick\<close>. With nothing selected (\<open>null\<close>, or the falsy empty string) an
  occupied square becomes the selection and it and the legal destinations are
  highlighted. With a selection, the move to the activated square is tried with promotion
  \<open>q\<close>; on success the position is published under \<open>'chess_game_' + instance\<close>
  (\<open>SetPublicSpaceProps\<close> carries the key and the \<open>fen\<close> field of the serialised record),
  the board is synced and the selection cleared; on failure the selection is cleared and,
  if the activated square is occupied, the function calls itself to select it.
\<close>

function handleSquareClick ::
  "'e engine \<Rightarrow> config \<Rightarrow> square \<Rightarrow> 'e state \<Rightarrow> effect list \<times> 'e state" where
  "handleSquareClick E cfg squareId st =
     (if \<not> truthy (selectedSquare st)
      then (if chess_get E squareId (chess st)
            then ([],
                  st\<lparr>selectedSquare := Some squareId,
                     tiles :=
                       fold (\<lambda>m_to. setMaterialColor cfg m_to COLORS_valid)
                         (chess_moves E squareId (chess st))
                         (setMaterialColor cfg squareId COLORS_selected (tiles st))\<rparr>)
            else ([], st))
      else (case selectedSquare st of
              None \<Rightarrow> ([], st)
            | Some sel \<Rightarrow>
                (case makeMove E sel squareId CHR ''q'' (chess st) of
                   (ok, evs, c') \<Rightarrow>
                     (if ok
                      then (case syncBoard E (st\<lparr>chess := c'\<rparr>) of
                              (out, st1) \<Rightarrow>
                                (evs
                                 @ [SetPublicSpaceProps (''chess_game_'' @ instance_id cfg)
                                      (chess_fen E c')]
                                 @ out,
                                 clearSelection cfg st1))
                      else (let st1 = clearSelection cfg (st\<lparr>chess := c'\<rparr>)
                            in if chess_get E squareId c'
                               then (case handleSquareClick E cfg squareId st1 of
                                       (out, st2) \<Rightarrow> (evs @ out, st2))
                               else (evs, st1))))))"
  by pat_completeness auto
termination
  by (relation "measure (\<lambda>(E, cfg, squareId, st). if truthy (selectedSquare st) then 1 else 0)")
     (auto simp: clearSelection_def truthy_def)

subsection \<open>The shared game-state record and its two consumers\<close>

text \<open>
  \<open>JSON.parse\<close> followed by reading \<open>.fen\<close> is a parameter: it either throws (a syntax
  error, or the parsed value is \<open>null\<close>) or yields the field, \<open>None\<close> when the field is
  absent. The field is taken to be a string when present.
\<close>

datatype parsed = ParseThrows | FenField "string option"

record space_state =
  sp_public :: "string \<Rightarrow> string option"
  sp_protected :: "string \<Rightarrow> string option"

definition stateKey :: "config \<Rightarrow> string" where
  "stateKey cfg = ''chess_game_'' @ instance_id cfg"

text \<open>
  The \<open>space-state-changed\<close> handler. \<open>changes\<close> are the \<open>property\<close> names of the
  event's change list; the value read (\<open>space_value\<close>) is the public one if truthy, else
  the protected one.
\<close>

definition space_value :: "space_state \<Rightarrow> string \<Rightarrow> string option" where
  "space_value spaceState key =
     (if truthy (sp_public spaceState key) then sp_public spaceState key
      else sp_protected spaceState key)"

definition space_state_changed ::
  "'e engine \<Rightarrow> (string \<Rightarrow> parsed) \<Rightarrow> config \<Rightarrow> string list \<Rightarrow> space_state \<Rightarrow> 'e state \<Rightarrow>
   effect list \<times> 'e state" where
  "space_state_changed E parse cfg changes spaceState st =
     (if stateKey cfg \<in> set changes
      then (let val = space_value spaceState (stateKey cfg)
            in (case val of
                  None \<Rightarrow> ([], st)
                | Some v \<Rightarrow>
                    (if v = [] then ([], st)
                     else (case parse v of
                             ParseThrows \<Rightarrow> ([ParseFailed], st)
                           | FenField fen \<Rightarrow>
                               (if fen = Some ''reset''
                                then (case syncBoard E (st\<lparr>chess := chess_reset E (chess st)\<rparr>) of
                                        (out, st1) \<Rightarrow> (out, clearSelection cfg st1))
                                else (case fen of
                                        None \<Rightarrow> ([], st)
                                      | Some f \<Rightarrow>
                                          (if f = [] then ([], st)
                                           else (case loadFen E f (chess st) of
                                                   (ok, evs, c') \<Rightarrow>
                                                     (case syncBoard E (st\<lparr>chess := c'\<rparr>) of
                                                        (out, st1) \<Rightarrow> (evs @ out, st1))))))))))
      else ([], st))"

text \<open>
  \<open>getSpaceStateValue\<close>. The loop waits until the host knows the local user; \<open>polls\<close>
  tells, for each evaluation of the loop condition, whether it does by then. \<open>None\<close>:
  the wait has not ended within the polls given. Otherwise the protected value if
  truthy, else the public value if truthy, else \<open>null\<close>.
\<close>

fun getSpaceStateValue :: "bool list \<Rightarrow> space_state \<Rightarrow> string \<Rightarrow> string option option" where
  "getSpaceStateValue [] spaceState key = None"
| "getSpaceStateValue (ready # polls) spaceState key =
     (if ready
      then Some (if truthy (sp_protected spaceState key) then sp_protected spaceState key
                 else if truthy (sp_public spaceState key) then sp_public spaceState key
                 else None)
      else getSpaceStateValue polls spaceState key)"

text \<open>
  \<open>setupBanterStateListeners\<close>: registers the handler above once, then reads the stored
  record once and applies it. \<open>None\<close>: the initial read has not returned.
\<close>

definition setupBanterStateListeners ::
  "'e engine \<Rightarrow> (string \<Rightarrow> parsed) \<Rightarrow> config \<Rightarrow> bool list \<Rightarrow> space_state \<Rightarrow> 'e state \<Rightarrow>
   (effect list \<times> 'e state) option" where
  "setupBanterStateListeners E parse cfg polls spaceState st =
     (if listenersSetup st then Some ([], st)
      else (let st0 = st\<lparr>listenersSetup := True\<rparr>
            in (case getSpaceStateValue polls spaceState (stateKey cfg) of
                  None \<Rightarrow> None
                | Some initialVal \<Rightarrow>
                    (case initialVal of
                       None \<Rightarrow> Some ([], st0)
                     | Some v \<Rightarrow>
                         (if v = [] then Some ([], st0)
                          else (case parse v of
                                  ParseThrows \<Rightarrow> Some ([ParseFailed], st0)
                                | FenField fen \<Rightarrow>
                                    (case fen of
                                       None \<Rightarrow> Some ([], st0)
                                     | Some f \<Rightarrow>
                                         (if f = [] then Some ([], st0)
                                          else (case loadFen E f (chess st0) of
                                                  (ok, evs, c') \<Rightarrow>
                                                    (case syncBoard E (st0\<lparr>chess := c'\<rparr>) of
                                                       (out, st1) \<Rightarrow> Some (evs @ out, st1)))))))))))"

section \<open>Auxiliary notions\<close>

text \<open>What a run of effects created, moved, destroyed, and which creations failed.\<close>

fun created :: "effect list \<Rightarrow> piece list" where
  "created [] = []"
| "created (NewPiece p sq v # evs) = p # created evs"
| "created (ev # evs) = created evs"

fun relocated :: "effect list \<Rightarrow> piece list" where
  "relocated [] = []"
| "relocated (Relocate p v # evs) = p # relocated evs"
| "relocated (ev # evs) = relocated evs"

fun destroyed :: "effect list \<Rightarrow> piece list" where
  "destroyed [] = []"
| "destroyed (Destroy p # evs) = p # destroyed evs"
| "destroyed (ev # evs) = destroyed evs"

fun failed_creations :: "effect list \<Rightarrow> effect list" where
  "failed_creations [] = []"
| "failed_creations (NoModel t # evs) = NoModel t # failed_creations evs"
| "failed_creations (CreateFailed c sq # evs) = CreateFailed c sq # failed_creations evs"
| "failed_creations (ev # evs) = failed_creations evs"

text \<open>
  All objects of a pool, and the shape every pool of \<open>syncBoard\<close> has: one list per
  descriptor, holding objects of that descriptor.
\<close>

definition pool_all :: "pool \<Rightarrow> piece list" where
  "pool_all availablePieces = concat (map snd availablePieces)"

definition pool_ok :: "pool \<Rightarrow> bool" where
  "pool_ok availablePieces \<longleftrightarrow>
     distinct (map fst availablePieces) \<and>
     (\<forall>kv \<in> set availablePieces. \<forall>p \<in> set (snd kv). pieceType p = fst kv)"

text \<open>
  The target squares pass 1 keeps in place (with their objects) and the ones it leaves
  pending.
\<close>

fun kept :: "(square \<times> piece) list \<Rightarrow> (square \<times> char) list \<Rightarrow> (square \<times> piece) list" where
  "kept cur [] = []"
| "kept cur ((sq, char) # entries) =
     (case map_of cur sq of
        None \<Rightarrow> kept cur entries
      | Some e \<Rightarrow> (if pieceType e = char then (sq, e) # kept cur entries else kept cur entries))"

fun pending_of :: "(square \<times> piece) list \<Rightarrow> (square \<times> char) list \<Rightarrow> (square \<times> char) list" where
  "pending_of cur [] = []"
| "pending_of cur ((sq, char) # entries) =
     (case map_of cur sq of
        None \<Rightarrow> (sq, char) # pending_of cur entries
      | Some e \<Rightarrow> (if pieceType e = char then pending_of cur entries else (sq, char) # pending_of cur entries))"

text \<open>The height adjustment of a piece type, by cases.\<close>

definition type_adjustment :: "char \<Rightarrow> rat" where
  "type_adjustment t =
     (if t = CHR ''p'' then 0
      else if t = CHR ''r'' then - (1 / 100)
      else if t = CHR ''n'' then 4 / 100
      else if t = CHR ''b'' then 3 / 100
      else if t = CHR ''q'' then 1 / 10
      else 11 / 100)"

text \<open>The current entries whose square does not want their descriptor any more.\<close>

definition leftover :: "(square \<times> piece) list \<Rightarrow> (square \<times> char) list \<Rightarrow> (square \<times> piece) list" where
  "leftover cur entries =
     filter (\<lambda>kv. map_of entries (fst kv) \<noteq> Some (pieceType (snd kv))) cur"

text \<open>
  Pass 2 without the effect accumulator: the effects of the remaining pending squares are
  returned instead of appended (lemma \<open>pass2_acc\<close> relates the two).
\<close>

fun pass2_run ::
  "(square \<times> char) list \<Rightarrow> pool \<Rightarrow> (square \<times> piece) list \<Rightarrow> host \<Rightarrow>
   pool \<times> (square \<times> piece) list \<times> host \<times> effect list" where
  "pass2_run [] availablePieces nextPiecesMap h = (availablePieces, nextPiecesMap, h, [])"
| "pass2_run ((sq, ch) # pendingSquares) availablePieces nextPiecesMap h =
     (case map_of availablePieces ch of
        Some (x # xs) \<Rightarrow>
          (case pass2_run pendingSquares (AList.map_entry ch butlast availablePieces)
                  (AList.update sq (last (x # xs)) nextPiecesMap) h of
             (p, n, h', res) \<Rightarrow> (p, n, h', Relocate (last (x # xs)) (getPiecePos sq ch) # res))
      | _ \<Rightarrow>
          (case createPiece ch sq h of
             (None, evs, h1) \<Rightarrow>
               (case pass2_run pendingSquares availablePieces nextPiecesMap h1 of
                  (p, n, h', res) \<Rightarrow> (p, n, h', evs @ res))
           | (Some piece, evs, h1) \<Rightarrow>
               (case pass2_run pendingSquares availablePieces (AList.update sq piece nextPiecesMap) h1 of
                  (p, n, h', res) \<Rightarrow> (p, n, h', evs @ res))))"

text \<open>The pool as pass 1 leaves it.\<close>

definition pool_after_pass1 :: "(square \<times> piece) list \<Rightarrow> (square \<times> char) list \<Rightarrow> pool" where
  "pool_after_pass1 cur entries = fst (pass1 cur entries (make_pool cur) [] [])"

text \<open>
  A stand-in for the rules engine, to instantiate the engine parameter at concrete
  inputs: its state is the current FEN and a script of the moves it will accept, each with
  the FEN it leads to. It answers as \<open>chess.js\<close> 0.10.3 does, the version the script
  loads: \<open>load\<close> returns \<open>false\<close> and keeps its position on a FEN it rejects (here: a
  placement field that is not eight rows of width eight over the piece letters and the
  digits 1 to 8), \<open>move\<close> returns \<open>null\<close> and keeps its position on a move it rejects;
  neither throws.
\<close>

definition start_fen :: string where
  "start_fen = ''rnbqkbnr/pppppppp/8/8/8/8/PPPPPPPP/RNBQKBNR w KQkq - 0 1''"

definition row_width :: "string \<Rightarrow> nat" where
  "row_width row =
     sum_list (map (\<lambda>c. case parseInt (Some c) of None \<Rightarrow> 1 | Some n \<Rightarrow> nat n) row)"

definition valid_placement :: "string \<Rightarrow> bool" where
  "valid_placement fen =
     (let rows = split_on CHR ''/'' (takeWhile (\<lambda>c. c \<noteq> CHR '' '') fen)
      in length rows = 8
         \<and> list_all (\<lambda>row. row_width row = 8
                \<and> list_all (\<lambda>c. c \<in> set ''prnbqkPRNBQK12345678'') row) rows)"

type_synonym script = "string \<times> (square \<times> square \<times> string) list"

definition script_engine :: "script engine" where
  "script_engine =
     \<lparr>chess_reset = (\<lambda>c. (start_fen, snd c)),
      chess_load = (\<lambda>fen c.
         if valid_placement fen then Returned True (fen, snd c) else Returned False c),
      chess_move = (\<lambda>from_sq to_sq promotion c.
         case snd c of
           [] \<Rightarrow> Returned False c
         | m # ms \<Rightarrow> if fst m = from_sq \<and> fst (snd m) = to_sq
                    then Returned True (snd (snd m), ms) else Returned False c),
      chess_fen = fst,
      chess_get = (\<lambda>sq c. map_of (decode_fen (fst c)) sq \<noteq> None),
      chess_moves = (\<lambda>sq c.
         case snd c of
           [] \<Rightarrow> []
         | m # ms \<Rightarrow> if fst m = sq then [fst (snd m)] else [])\<rparr>"

definition init_state :: "script \<Rightarrow> script state" where
  "init_state c =
     \<lparr>chess = c, tiles = (\<lambda>sid. None), pieces = [], selectedSquare = None,
      piecesRoot = False, listenersSetup = False, scene = (0, [])\<rparr>"

text \<open>Small positions for concrete runs.\<close>

definition two_kings :: string where
  "two_kings = ''k7/8/8/8/8/8/8/K7 w - - 0 1''"

definition pawn_e2 :: string where
  "pawn_e2 = ''k7/8/8/8/8/8/4P3/K7 w - - 0 1''"

definition pawn_e4 :: string where
  "pawn_e4 = ''k7/8/8/8/4P3/8/8/K7 b - - 0 1''"

definition before_capture :: string where
  "before_capture = ''k7/8/8/3p4/4P3/8/8/K7 w - - 0 1''"

definition after_capture :: string where
  "after_capture = ''k7/8/8/3P4/8/8/8/K7 b - - 0 1''"

text \<open>
  Concrete client states: the state after the first sync of a position; the same with the
  engine moved on to another position (the board not yet synced); and a first sync
  during which the host fails the first creation.
\<close>

definition synced :: "string \<Rightarrow> script state" where
  "synced fen = snd (syncBoard script_engine (init_state (fen, [])))"

definition quiet_move_state :: "script state" where
  "quiet_move_state = (synced pawn_e2)\<lparr>chess := (pawn_e4, [])\<rparr>"

definition capture_state :: "script state" where
  "capture_state = (synced before_capture)\<lparr>chess := (after_capture, [])\<rparr>"

definition faulty_start :: "script state" where
  "faulty_start = (init_state (two_kings, []))\<lparr>scene := (0, [True])\<rparr>"

text \<open>
  Stand-ins for the other parameters at concrete inputs: a parser for records stored as
  their bare \<open>fen\<close> field (\<open>{\<close> does not parse, \<open>{}\<close> has no field), a configuration, a
  shared store holding one record under the instance key, and the state of a client whose
  board shows a position, with its tiles in place.
\<close>

definition bare_parse :: "string \<Rightarrow> parsed" where
  "bare_parse v =
     (if v = ''{'' then ParseThrows else if v = ''{}'' then FenField None else FenField (Some v))"

definition lobby :: config where
  "lobby = \<lparr>instance_id = ''lobby'', hideBoard = False\<rparr>"

definition store_with :: "string \<Rightarrow> space_state" where
  "store_with v =
     \<lparr>sp_public = (\<lambda>k. if k = ''chess_game_lobby'' then Some v else None),
      sp_protected = (\<lambda>k. None)\<rparr>"

definition showing :: "script \<Rightarrow> script state" where
  "showing c = snd (generateTiles script_engine lobby (init_state c))"

text \<open>
  The record the \<open>space-state-changed\<close> handler acts on, if any: none when the event is
  not about this instance's key or the value read is falsy.
\<close>

definition delivered ::
  "(string \<Rightarrow> parsed) \<Rightarrow> config \<Rightarrow> string list \<Rightarrow> space_state \<Rightarrow> parsed option" where
  "delivered parse cfg changes spaceState =
     (if stateKey cfg \<in> set changes
      then (case space_value spaceState (stateKey cfg) of
              None \<Rightarrow> None
            | Some v \<Rightarrow> if v = [] then None else Some (parse v))
      else None)"

text \<open>
  A client whose user has just activated the pawn on e2, with an engine that accepts e2
  to e4: e2 is selected and coloured so, e4 is coloured as a legal destination.
\<close>

definition about_to_move :: "script state" where
  "about_to_move =
     snd (handleSquareClick script_engine lobby ''e2''
            (showing (pawn_e2, [(''e2'', ''e4'', pawn_e4)])))"

section \<open>The reuse pool\<close>

declare digits_of.simps [simp del]

lemma update_fresh: "k \<notin> fst ` set al \<Longrightarrow> AList.update k v al = al @ [(k, v)]"
  by (induction al) auto

lemma pool_all_map_entry:
  "distinct (map fst pool) \<Longrightarrow> map_of pool c = Some l \<Longrightarrow>
   mset (pool_all (AList.map_entry c f pool)) + mset l = mset (pool_all pool) + mset (f l)"
  by (induction pool) (auto simp: pool_all_def)

lemma set_map_entry:
  "kv \<in> set (AList.map_entry c f pool) \<Longrightarrow>
   kv \<in> set pool \<or> (\<exists>l. (c, l) \<in> set pool \<and> kv = (c, f l))"
  by (induction pool) (auto split: if_splits)

lemma pool_ok_map_entry:
  assumes "pool_ok pool" "\<And>l. set (f l) \<subseteq> set l"
  shows "pool_ok (AList.map_entry c f pool)"
proof -
  have d: "distinct (map fst (AList.map_entry c f pool))"
    using assms(1) by (simp add: pool_ok_def AList.distinct_map_entry)
  have t: "pieceType p = fst kv" if "kv \<in> set (AList.map_entry c f pool)" "p \<in> set (snd kv)" for kv p
  proof -
    from set_map_entry [OF that(1)] show ?thesis
    proof
      assume "kv \<in> set pool"
      then show ?thesis using assms(1) that(2) by (auto simp: pool_ok_def)
    next
      assume "\<exists>l. (c, l) \<in> set pool \<and> kv = (c, f l)"
      then obtain l where l: "(c, l) \<in> set pool" "kv = (c, f l)" by blast
      then have "p \<in> set l" using that(2) assms(2) by auto
      then show ?thesis using assms(1) l by (auto simp: pool_ok_def)
    qed
  qed
  show ?thesis unfolding pool_ok_def using d t by blast
qed

lemma pool_member:
  assumes "pool_ok pool" "p \<in> set (pool_all pool)"
  shows "\<exists>l. map_of pool (pieceType p) = Some l \<and> p \<in> set l"
proof -
  from assms(2) obtain kv where kv: "kv \<in> set pool" "p \<in> set (snd kv)"
    by (auto simp: pool_all_def)
  then have "fst kv = pieceType p" using assms(1) by (auto simp: pool_ok_def)
  then have "(pieceType p, snd kv) \<in> set pool" using kv(1) by (cases kv) auto
  then have "map_of pool (pieceType p) = Some (snd kv)"
    using assms(1) by (simp add: pool_ok_def)
  then show ?thesis using kv(2) by blast
qed

lemma set_map_default:
  "kv \<in> set (AList.map_default k v f pool) \<Longrightarrow>
   kv \<in> set pool \<or> kv = (k, v) \<or> (\<exists>l. (k, l) \<in> set pool \<and> kv = (k, f l))"
  by (induction pool) (auto split: if_splits)

lemma pool_push_ok:
  assumes "pool_ok pool"
  shows "pool_ok (pool_push p pool)"
proof -
  have d: "distinct (map fst (pool_push p pool))"
    using assms by (simp add: pool_ok_def pool_push_def AList.distinct_map_default)
  have t: "pieceType q = fst kv" if "kv \<in> set (pool_push p pool)" "q \<in> set (snd kv)" for kv q
  proof -
    from that(1) have "kv \<in> set pool \<or> kv = (pieceType p, [p]) \<or>
        (\<exists>l. (pieceType p, l) \<in> set pool \<and> kv = (pieceType p, l @ [p]))"
      unfolding pool_push_def by (rule set_map_default)
    then consider "kv \<in> set pool" | "kv = (pieceType p, [p])"
      | l where "(pieceType p, l) \<in> set pool" "kv = (pieceType p, l @ [p])" by blast
    then show ?thesis
    proof cases
      case 1
      then show ?thesis using assms that(2) by (auto simp: pool_ok_def)
    next
      case 2
      then show ?thesis using that(2) by simp
    next
      case 3
      then have "q = p \<or> q \<in> set l" using that(2) by auto
      then show ?thesis using assms 3 by (auto simp: pool_ok_def)
    qed
  qed
  show ?thesis unfolding pool_ok_def using d t by blast
qed

lemma pool_push_mset: "mset (pool_all (pool_push p pool)) = mset (pool_all pool) + {#p#}"
  unfolding pool_all_def pool_push_def
  by (induction pool) auto

lemma fold_pool_push:
  "pool_ok pool \<Longrightarrow>
   pool_ok (fold pool_push ps pool) \<and>
   mset (pool_all (fold pool_push ps pool)) = mset (pool_all pool) + mset ps"
  by (induction ps arbitrary: pool) (auto simp: pool_push_ok pool_push_mset)

lemma make_pool_ok: "pool_ok (make_pool cur)"
  using fold_pool_push [of "[]" "map snd cur"] by (simp add: make_pool_def pool_ok_def)

lemma make_pool_mset: "mset (pool_all (make_pool cur)) = mset (map snd cur)"
  using fold_pool_push [of "[]" "map snd cur"] by (simp add: make_pool_def pool_ok_def pool_all_def)

lemma pool_remove1:
  assumes "pool_ok pool" "p \<in> set (pool_all pool)"
  shows "mset (pool_all (AList.map_entry (pieceType p) (remove1 p) pool)) = mset (pool_all pool) - {#p#}"
proof -
  obtain l where l: "map_of pool (pieceType p) = Some l" "p \<in> set l"
    using pool_member [OF assms] by blast
  have "mset (pool_all (AList.map_entry (pieceType p) (remove1 p) pool)) + mset l
        = mset (pool_all pool) + mset (remove1 p l)"
    using assms(1) l(1) by (intro pool_all_map_entry) (simp_all add: pool_ok_def)
  moreover have "mset l = mset (remove1 p l) + {#p#}" using l(2) by simp
  ultimately have "mset (pool_all (AList.map_entry (pieceType p) (remove1 p) pool)) + {#p#} = mset (pool_all pool)"
  proof -
    assume a1: "mset (pool_all (AList.map_entry (pieceType p) (remove1 p) pool)) + mset l
        = mset (pool_all pool) + mset (remove1 p l)"
    assume a2: "mset l = mset (remove1 p l) + {#p#}"
    have "(mset (pool_all (AList.map_entry (pieceType p) (remove1 p) pool)) + {#p#}) + mset (remove1 p l)
          = mset (pool_all pool) + mset (remove1 p l)"
      using a1 unfolding a2 by (simp add: ac_simps)
    then show ?thesis by simp
  qed
  then have "mset (pool_all pool) = add_mset p (mset (pool_all (AList.map_entry (pieceType p) (remove1 p) pool)))"
    by simp
  then show ?thesis by simp
qed

lemma pass1_next:
  "distinct (map fst entries) \<Longrightarrow> fst ` set entries \<inter> fst ` set next = {} \<Longrightarrow>
   fst (snd (pass1 cur entries pool next pend)) = next @ kept cur entries"
proof (induction entries arbitrary: pool "next" pend)
  case Nil
  then show ?case by simp
next
  case (Cons a entries)
  obtain sq ch where a: "a = (sq, ch)" by (cases a)
  show ?case using Cons.prems
    by (auto simp: a update_fresh Cons.IH split: option.splits)
qed

lemma pass1_pending:
  "snd (snd (pass1 cur entries pool next pend)) = pend @ pending_of cur entries"
  by (induction entries arbitrary: pool "next" pend) (auto split: option.splits)

lemma pass1_pool:
  "pool_ok pool \<Longrightarrow> mset (map snd (kept cur entries)) \<subseteq># mset (pool_all pool) \<Longrightarrow>
   pool_ok (fst (pass1 cur entries pool next pend)) \<and>
   mset (pool_all (fst (pass1 cur entries pool next pend)))
     = mset (pool_all pool) - mset (map snd (kept cur entries))"
proof (induction entries arbitrary: pool "next" pend)
  case Nil
  then show ?case by simp
next
  case (Cons a entries)
  obtain sq ch where a: "a = (sq, ch)" by (cases a)
  show ?case
  proof (cases "\<exists>e. map_of cur sq = Some e \<and> pieceType e = ch")
    case False
    then have "kept cur (a # entries) = kept cur entries"
      and "fst (pass1 cur (a # entries) pool next pend) = fst (pass1 cur entries pool next (pend @ [(sq, ch)]))"
      by (auto simp: a split: option.splits)
    then show ?thesis using Cons.IH [of pool] Cons.prems by simp
  next
    case True
    then obtain e where e: "map_of cur sq = Some e" "pieceType e = ch" by blast
    let ?pool' = "AList.map_entry ch (remove1 e) pool"
    have k: "kept cur (a # entries) = (sq, e) # kept cur entries"
      and p: "fst (pass1 cur (a # entries) pool next pend) = fst (pass1 cur entries ?pool' (AList.update sq e next) pend)"
      using e by (auto simp: a)
    have sub: "add_mset e (mset (map snd (kept cur entries))) \<subseteq># mset (pool_all pool)"
      using Cons.prems(2) k by simp
    then have mem: "e \<in> set (pool_all pool)"
      using mset_subset_eq_insertD [of e _ "mset (pool_all pool)"] by auto
    have m': "mset (pool_all ?pool') = mset (pool_all pool) - {#e#}"
      using pool_remove1 [OF Cons.prems(1) mem] e(2) by simp
    have ok': "pool_ok ?pool'"
      using Cons.prems(1) by (intro pool_ok_map_entry) (auto dest: notin_set_remove1 [THEN contrapos_np] intro: set_remove1_subset [THEN subsetD])
    have sub': "mset (map snd (kept cur entries)) \<subseteq># mset (pool_all ?pool')"
      using sub m' by (simp add: insert_subset_eq_iff)
    show ?thesis
      using Cons.IH [OF ok' sub', of "AList.update sq e next" pend] k p m'
      by simp
  qed
qed

section \<open>Positions\<close>

lemma file_cases: "fileIndex < 8 \<Longrightarrow> fileIndex \<in> {0, 1, 2, 3, 4, 5, 6, 7::nat}"
  by auto

lemma rank_cases: "1 \<le> rank \<Longrightarrow> rank \<le> 8 \<Longrightarrow> rank \<in> {1, 2, 3, 4, 5, 6, 7, 8::int}"
  by auto

lemma offset_value: "offset = 7 / 4"
  by (simp add: offset_def boardSize_def tileSize_def)

lemma digits_small: "n < 10 \<Longrightarrow> digits_of n = [''0123456789'' ! n]"
  by (subst digits_of.simps) simp

lemma rank_key:
  assumes "1 \<le> rank" "rank \<le> 8"
  shows "parseInt (char_at (c # string_of_int rank) 1) = Some rank"
  using rank_cases [OF assms]
  by (elim insertE emptyE) (simp_all add: string_of_int_def digits_small char_at_def parseInt_def)

lemma file_key:
  assumes "fileIndex < 8"
  shows "indexOf letters (letters ! fileIndex) = int fileIndex"
  using file_cases [OF assms] by (elim insertE emptyE) (simp_all add: letters_def)

lemma getSquarePos_square:
  assumes "fileIndex < 8" "1 \<le> rank" "rank \<le> 8"
  shows "getSquarePos (square_key fileIndex rank)
         = (Some (of_nat fileIndex * tileSize - offset), Some (15 / 100),
            Some (- ((of_int rank - 1) * tileSize) + offset))"
proof -
  have k: "square_key fileIndex rank = (letters ! fileIndex) # string_of_int rank"
    using assms(1) by (simp add: square_key_def letters_def)
  show ?thesis
    unfolding k getSquarePos_def Let_def rank_key [OF assms(2,3)]
    by (simp add: char_at_def file_key [OF assms(1)])
qed

lemma adjustment_lookup:
  assumes "t \<in> set ''prnbqk''"
  shows "(case map_of Y_ADJUSTMENTS t of
            None \<Rightarrow> (px, py, pz)
          | Some adj \<Rightarrow> (if adj \<noteq> 0 then (px, map_option (\<lambda>y. y + adj) py, pz) else (px, py, pz)))
         = (px, map_option (\<lambda>y. y + type_adjustment t) py, pz)"
proof -
  from assms have "t = CHR ''p'' \<or> t = CHR ''r'' \<or> t = CHR ''n'' \<or> t = CHR ''b''
      \<or> t = CHR ''q'' \<or> t = CHR ''k''"
    by simp
  then show ?thesis
    by (elim disjE) (simp_all add: Y_ADJUSTMENTS_def type_adjustment_def option.map_ident)
qed

text \<open>
  Claim C9. For a square with file index 0 to 7 and rank 1 to 8 and a piece descriptor
  (one of p, r, n, b, q, k in either case), the local position of the piece is
  \<open>(fileIndex * tileSize - offset, 0.15 + adjustment, -((rank - 1) * tileSize) + offset)\<close>,
  with \<open>offset = (8 * tileSize) / 2 - tileSize / 2\<close>, \<open>tileSize = 0.5\<close>, and the adjustment
  0 for a pawn and the constant of its type otherwise.
\<close>

theorem piece_position:
  assumes "fileIndex < 8" "1 \<le> rank" "rank \<le> 8" "toLowerCase c \<in> set ''prnbqk''"
  shows "getPiecePos (square_key fileIndex rank) c
         = (Some (of_nat fileIndex * tileSize - offset),
            Some (15 / 100 + type_adjustment (toLowerCase c)),
            Some (- ((of_int rank - 1) * tileSize) + offset))
         \<and> offset = (8 * tileSize) / 2 - tileSize / 2 \<and> tileSize = 1 / 2"
proof -
  have "getPiecePos (square_key fileIndex rank) c
         = (Some (of_nat fileIndex * tileSize - offset),
            Some (15 / 100 + type_adjustment (toLowerCase c)),
            Some (- ((of_int rank - 1) * tileSize) + offset))"
    by (simp add: getPiecePos_def getSquarePos_square [OF assms(1,2,3)]
        adjustment_lookup [OF assms(4)])
  then show ?thesis by (simp add: offset_def boardSize_def tileSize_def)
qed

theorem piece_position_witness:
  "getPiecePos ''e4'' CHR ''Q'' = (Some (1 / 4), Some (1 / 4), Some (1 / 4))"
  using piece_position [of 4 4 "CHR ''Q''"]
  by (simp add: square_key_def letters_def string_of_int_def digits_small toLowerCase_def
      type_adjustment_def offset_def boardSize_def tileSize_def)

section \<open>Decoding and pass 1\<close>

lemma decode_row_distinct:
  "distinct (map fst nb) \<Longrightarrow> distinct (map fst (decode_row row rank fi nb))"
  by (induction row arbitrary: fi nb) (simp_all add: AList.distinct_update split: option.splits)

lemma decode_rows_distinct:
  "distinct (map fst nb) \<Longrightarrow> distinct (map fst (decode_rows rows i nb))"
  by (induction rows arbitrary: i nb) (simp_all add: decode_row_distinct)

lemma decode_fen_distinct: "distinct (map fst (decode_fen fen))"
  by (simp add: decode_fen_def decode_rows_distinct)

lemma own_values_mset: "mset (own_values al) = mset (map snd al)"
proof -
  let ?P = "\<lambda>kv. fst kv \<in> set ''0123456789''"
  have "mset (own_values al)
        = image_mset snd (filter_mset ?P (mset al)) + image_mset snd (filter_mset (\<lambda>kv. \<not> ?P kv) (mset al))"
    unfolding own_values_def by (simp only: mset_append mset_map mset_sort mset_filter)
  also have "\<dots> = image_mset snd (mset al)"
    by (simp only: image_mset_union [symmetric] multiset_partition [symmetric])
  finally show ?thesis by simp
qed

lemma pass1_pool_ok:
  "pool_ok pool \<Longrightarrow> pool_ok (fst (pass1 cur entries pool next pend))"
proof (induction entries arbitrary: pool "next" pend)
  case Nil
  then show ?case by simp
next
  case (Cons a entries)
  obtain sq ch where a: "a = (sq, ch)" by (cases a)
  have ok': "pool_ok (AList.map_entry ch (remove1 e) pool)" for e
    using Cons.prems by (rule pool_ok_map_entry) (rule set_remove1_subset)
  show ?case
    using Cons.IH [OF Cons.prems] Cons.IH [OF ok']
    by (simp add: a split: option.splits)
qed

lemma kept_set:
  "(sq, p) \<in> set (kept cur entries) \<longleftrightarrow> map_of cur sq = Some p \<and> (sq, pieceType p) \<in> set entries"
proof (induction entries)
  case Nil
  then show ?case by simp
next
  case (Cons a entries)
  obtain s c where a: "a = (s, c)" by (cases a)
  show ?case using Cons.IH by (auto simp: a split: option.splits)
qed

lemma kept_keys: "fst ` set (kept cur entries) \<subseteq> fst ` set entries"
  using kept_set [of _ _ cur entries] by force

lemma kept_distinct:
  "distinct (map fst entries) \<Longrightarrow> distinct (map fst (kept cur entries))"
proof (induction entries)
  case Nil
  then show ?case by simp
next
  case (Cons a entries)
  obtain s c where a: "a = (s, c)" by (cases a)
  have "s \<notin> fst ` set (kept cur entries)"
    using Cons.prems kept_keys [of cur entries] by (auto simp: a)
  then show ?case using Cons by (simp add: a split: option.splits)
qed

lemma pending_filter:
  "pending_of cur entries
   = filter (\<lambda>kv. map_option pieceType (map_of cur (fst kv)) \<noteq> Some (snd kv)) entries"
proof (induction entries)
  case Nil
  then show ?case by simp
next
  case (Cons a entries)
  obtain s c where a: "a = (s, c)" by (cases a)
  show ?case using Cons.IH by (simp add: a split: option.splits)
qed

lemma kept_pending_keys:
  "fst ` set (kept cur entries) \<union> fst ` set (pending_of cur entries) = fst ` set entries"
proof (induction entries)
  case Nil
  then show ?case by simp
next
  case (Cons a entries)
  obtain s c where a: "a = (s, c)" by (cases a)
  show ?case using Cons.IH by (auto simp: a split: option.splits)
qed

lemma kept_pending_disjoint:
  "distinct (map fst entries) \<Longrightarrow>
   fst ` set (kept cur entries) \<inter> fst ` set (pending_of cur entries) = {}"
proof (induction entries)
  case Nil
  then show ?case by simp
next
  case (Cons a entries)
  obtain s c where a: "a = (s, c)" by (cases a)
  have k: "s \<notin> fst ` set (kept cur entries)" and p: "s \<notin> fst ` set (pending_of cur entries)"
    using Cons.prems kept_pending_keys [of cur entries] by (auto simp: a)
  show ?case using Cons k p by (auto simp: a split: option.splits)
qed

lemma kept_mset:
  assumes "distinct (map fst entries)" "distinct (map fst cur)"
  shows "mset (kept cur entries)
         = mset (filter (\<lambda>kv. map_of entries (fst kv) = Some (pieceType (snd kv))) cur)"
proof -
  have d1: "distinct (kept cur entries)"
    using kept_distinct [OF assms(1)] by (rule distinct_map [THEN iffD1, THEN conjunct1])
  have d2: "distinct (filter (\<lambda>kv. map_of entries (fst kv) = Some (pieceType (snd kv))) cur)"
    using assms(2) by (simp add: distinct_map)
  have "set (kept cur entries)
        = set (filter (\<lambda>kv. map_of entries (fst kv) = Some (pieceType (snd kv))) cur)"
  proof (rule set_eqI)
    fix kv :: "square \<times> piece"
    obtain sq p where kv: "kv = (sq, p)" by (cases kv)
    show "kv \<in> set (kept cur entries)
          \<longleftrightarrow> kv \<in> set (filter (\<lambda>kv. map_of entries (fst kv) = Some (pieceType (snd kv))) cur)"
      unfolding kv kept_set
      by (simp add: map_of_eq_Some_iff [OF assms(1)] map_of_eq_Some_iff [OF assms(2)] conj_commute)
  qed
  then show ?thesis by (rule set_eq_iff_mset_eq_distinct [OF d1 d2, THEN iffD1])
qed

lemma mset_minus_filter: "M - filter_mset Q M = filter_mset (\<lambda>x. \<not> Q x) M"
  by (rule multiset_eqI) simp

lemma pass1_summary:
  assumes "distinct (map fst entries)" "distinct (map fst cur)"
  shows "pass1 cur entries (make_pool cur) [] []
         = (fst (pass1 cur entries (make_pool cur) [] []), kept cur entries, pending_of cur entries)"
    and "pool_ok (fst (pass1 cur entries (make_pool cur) [] []))"
    and "mset (pool_all (fst (pass1 cur entries (make_pool cur) [] [])))
         = mset (map snd (leftover cur entries))"
proof -
  let ?Q = "\<lambda>kv. map_of entries (fst kv) = Some (pieceType (snd kv))"
  have n: "fst (snd (pass1 cur entries (make_pool cur) [] [])) = kept cur entries"
    using pass1_next [OF assms(1), of "[]" cur "make_pool cur" "[]"] by simp
  have p: "snd (snd (pass1 cur entries (make_pool cur) [] [])) = pending_of cur entries"
    using pass1_pending [of cur entries "make_pool cur" "[]" "[]"] by simp
  show "pass1 cur entries (make_pool cur) [] []
         = (fst (pass1 cur entries (make_pool cur) [] []), kept cur entries, pending_of cur entries)"
    using n p by (metis prod.collapse)
  have "mset (kept cur entries) \<subseteq># mset cur"
    unfolding kept_mset [OF assms] mset_filter by (rule multiset_filter_subset)
  then have sub: "mset (map snd (kept cur entries)) \<subseteq># mset (pool_all (make_pool cur))"
    unfolding make_pool_mset mset_map by (rule image_mset_subseteq_mono)
  note r = pass1_pool [OF make_pool_ok sub, of "[]" "[]"]
  show "pool_ok (fst (pass1 cur entries (make_pool cur) [] []))" using r by simp
  have "mset (pool_all (fst (pass1 cur entries (make_pool cur) [] [])))
        = image_mset snd (mset cur) - image_mset snd (filter_mset ?Q (mset cur))"
    using r by (simp add: make_pool_mset kept_mset [OF assms])
  also have "\<dots> = image_mset snd (mset cur - filter_mset ?Q (mset cur))"
    by (rule image_mset_Diff [symmetric]) (rule multiset_filter_subset)
  also have "\<dots> = image_mset snd (filter_mset (\<lambda>x. \<not> ?Q x) (mset cur))"
    by (simp only: mset_minus_filter)
  finally show "mset (pool_all (fst (pass1 cur entries (make_pool cur) [] [])))
         = mset (map snd (leftover cur entries))"
    by (simp add: leftover_def)
qed

section \<open>Pass 2\<close>

lemma created_append [simp]: "created (a @ b) = created a @ created b"
  by (induction a rule: created.induct) simp_all

lemma relocated_append [simp]: "relocated (a @ b) = relocated a @ relocated b"
  by (induction a rule: relocated.induct) simp_all

lemma destroyed_append [simp]: "destroyed (a @ b) = destroyed a @ destroyed b"
  by (induction a rule: destroyed.induct) simp_all

lemma failed_creations_append [simp]:
  "failed_creations (a @ b) = failed_creations a @ failed_creations b"
  by (induction a rule: failed_creations.induct) simp_all

lemma effects_of_Destroy [simp]:
  "created (map Destroy ps) = []" "relocated (map Destroy ps) = []"
  "destroyed (map Destroy ps) = ps" "failed_creations (map Destroy ps) = []"
  by (induction ps) simp_all

lemma pass2_acc:
  "pass2 pend pool next h out
   = (case pass2_run pend pool next h of (p, n, h', res) \<Rightarrow> (p, n, h', out @ res))"
proof (induction pend arbitrary: pool "next" h out)
  case Nil
  then show ?case by simp
next
  case (Cons a pend)
  obtain sq ch where a: "a = (sq, ch)" by (cases a)
  show ?case
    by (simp add: a Cons.IH split: option.splits list.splits prod.splits)
qed

lemma createPiece_cases:
  assumes "createPiece ch sq h = (r, evs, h1)"
  shows "(r = None \<and> failed_creations evs \<noteq> [] \<and> created evs = [] \<and> relocated evs = []
          \<and> destroyed evs = [] \<and> fst h1 = fst h)
         \<or> (r = Some \<lparr>oid = fst h, pieceType = ch\<rparr>
             \<and> evs = [NewPiece \<lparr>oid = fst h, pieceType = ch\<rparr> sq (getPiecePos sq ch)]
             \<and> fst h1 = Suc (fst h))"
  using assms
  by (cases h) (auto simp: createPiece_def Let_def split: option.splits list.splits bool.splits)


lemma pass2_run_Cons_cases:
  assumes "pass2_run ((sq, ch) # pend) pool next h = (p, n, h', res)"
  obtains (reuse) l res' where "map_of pool ch = Some l" "l \<noteq> []"
      "pass2_run pend (AList.map_entry ch butlast pool) (AList.update sq (last l) next) h
         = (p, n, h', res')"
      "res = Relocate (last l) (getPiecePos sq ch) # res'"
    | (fail) evs h1 res' where "createPiece ch sq h = (None, evs, h1)"
      "pass2_run pend pool next h1 = (p, n, h', res')" "res = evs @ res'"
    | (create) piece evs h1 res' where "createPiece ch sq h = (Some piece, evs, h1)"
      "pass2_run pend pool (AList.update sq piece next) h1 = (p, n, h', res')" "res = evs @ res'"
proof (cases "\<exists>x xs. map_of pool ch = Some (x # xs)")
  case True
  then obtain x xs where l: "map_of pool ch = Some (x # xs)" by blast
  obtain p1 n1 h1 r1 where r: "pass2_run pend (AList.map_entry ch butlast pool)
      (AList.update sq (last (x # xs)) next) h = (p1, n1, h1, r1)"
    by (metis prod_cases4)
  show ?thesis
    using assms reuse [of "x # xs" r1] l r by simp
next
  case False
  obtain r evs h1 where c: "createPiece ch sq h = (r, evs, h1)" by (metis prod_cases3)
  have e: "pass2_run ((sq, ch) # pend) pool next h
        = (case createPiece ch sq h of
             (None, evs, h1) \<Rightarrow>
               (case pass2_run pend pool next h1 of (p, n, h', res) \<Rightarrow> (p, n, h', evs @ res))
           | (Some piece, evs, h1) \<Rightarrow>
               (case pass2_run pend pool (AList.update sq piece next) h1 of
                  (p, n, h', res) \<Rightarrow> (p, n, h', evs @ res)))"
    using False by (simp split: option.splits list.splits)
  show ?thesis
  proof (cases r)
    case None
    obtain p1 n1 h2 r1 where r: "pass2_run pend pool next h1 = (p1, n1, h2, r1)"
      by (metis prod_cases4)
    show ?thesis using assms fail [of evs h1 r1] c r None unfolding e by simp
  next
    case (Some piece)
    obtain p1 n1 h2 r1 where r: "pass2_run pend pool (AList.update sq piece next) h1 = (p1, n1, h2, r1)"
      by (metis prod_cases4)
    show ?thesis using assms create [of piece evs h1 r1] c r Some unfolding e by simp
  qed
qed

lemma pool_last_type:
  assumes "pool_ok pool" "map_of pool ch = Some l" "l \<noteq> []"
  shows "pieceType (last l) = ch"
proof -
  have "(ch, l) \<in> set pool" using assms(2) by (rule map_of_SomeD)
  then show ?thesis using assms(1,3) by (auto simp: pool_ok_def)
qed

lemma pool_ok_pop: "pool_ok pool \<Longrightarrow> pool_ok (AList.map_entry ch butlast pool)"
  by (rule pool_ok_map_entry) (auto dest: in_set_butlastD)

lemma pool_pop_mset:
  assumes "pool_ok pool" "map_of pool ch = Some l" "l \<noteq> []"
  shows "mset (pool_all (AList.map_entry ch butlast pool)) + {#last l#} = mset (pool_all pool)"
proof -
  have "mset (pool_all (AList.map_entry ch butlast pool)) + mset l
        = mset (pool_all pool) + mset (butlast l)"
    using assms(1,2) by (intro pool_all_map_entry) (simp_all add: pool_ok_def)
  moreover have "mset l = mset (butlast l) + {#last l#}"
    using assms(3) by (metis append_butlast_last_id mset.simps(2) mset_append add_mset_add_single mset.simps(1) empty_neutral(1) union_mset_add_mset_right)
  ultimately have "(mset (pool_all (AList.map_entry ch butlast pool)) + {#last l#}) + mset (butlast l)
        = mset (pool_all pool) + mset (butlast l)"
    by (simp add: ac_simps)
  then show ?thesis by simp
qed

lemma pass2_run_pool_ok:
  "pool_ok pool \<Longrightarrow> pass2_run pend pool next h = (p, n, h', res) \<Longrightarrow> pool_ok p"
proof (induction pend arbitrary: pool "next" h p n h' res)
  case Nil
  then show ?case by simp
next
  case (Cons a pend)
  obtain sq ch where a: "a = (sq, ch)" by (cases a)
  from Cons.prems(2) [unfolded a] show ?case
  proof (cases rule: pass2_run_Cons_cases)
    case (reuse l res')
    show ?thesis using Cons.IH [OF pool_ok_pop [OF Cons.prems(1)] reuse(3)] .
  next
    case (fail evs h1 res')
    show ?thesis using Cons.IH [OF Cons.prems(1) fail(2)] .
  next
    case (create piece evs h1 res')
    show ?thesis using Cons.IH [OF Cons.prems(1) create(2)] .
  qed
qed

lemma pass2_run_entries:
  assumes "pool_ok pool" "pass2_run pend pool next h = (p, n, h', res)"
  shows "(\<forall>sq q. map_of n sq = Some q \<longrightarrow> map_of next sq = Some q \<or> (sq, pieceType q) \<in> set pend)
       \<and> fst ` set n \<subseteq> fst ` set next \<union> fst ` set pend
       \<and> (failed_creations res = [] \<longrightarrow> fst ` set n = fst ` set next \<union> fst ` set pend)
       \<and> (distinct (map fst next) \<longrightarrow> distinct (map fst n))"
  using assms
proof (induction pend arbitrary: pool "next" h p n h' res)
  case Nil
  then show ?case by simp
next
  case (Cons a pend)
  obtain sq ch where a: "a = (sq, ch)" by (cases a)
  from Cons.prems(2) [unfolded a] show ?case
  proof (cases rule: pass2_run_Cons_cases)
    case (reuse l res')
    have t: "pieceType (last l) = ch" using Cons.prems(1) reuse(1,2) by (rule pool_last_type)
    from Cons.IH [OF pool_ok_pop [OF Cons.prems(1)] reuse(3)] show ?thesis
      unfolding a reuse(4) using t
      by (auto simp: AList.update_conv' AList.dom_update AList.distinct_update split: if_splits)
  next
    case (fail evs h1 res')
    have "failed_creations evs \<noteq> []" using createPiece_cases [OF fail(1)] by simp
    with Cons.IH [OF Cons.prems(1) fail(2)] show ?thesis
      unfolding a fail(3) by auto
  next
    case (create piece evs h1 res')
    have t: "pieceType piece = ch" using createPiece_cases [OF create(1)] by auto
    from Cons.IH [OF Cons.prems(1) create(2)] show ?thesis
      unfolding a create(3) using t
      by (auto simp: AList.update_conv' AList.dom_update AList.distinct_update split: if_splits)
  qed
qed

section \<open>Reconciliation as a whole\<close>

lemma pass1_result:
  assumes "distinct (map fst entries)"
  shows "pass1 cur entries (make_pool cur) [] []
         = (pool_after_pass1 cur entries, kept cur entries, pending_of cur entries)"
proof -
  have n: "fst (snd (pass1 cur entries (make_pool cur) [] [])) = kept cur entries"
    using pass1_next [OF assms, of "[]" cur "make_pool cur" "[]"] by simp
  have p: "snd (snd (pass1 cur entries (make_pool cur) [] [])) = pending_of cur entries"
    using pass1_pending [of cur entries "make_pool cur" "[]" "[]"] by simp
  show ?thesis unfolding pool_after_pass1_def using n p by (metis prod.collapse)
qed

lemma reconcile_unfold:
  "reconcile fen cur h
   = (case pass2_run (pending_of cur (decode_fen fen)) (pool_after_pass1 cur (decode_fen fen))
             (kept cur (decode_fen fen)) h of
        (pool2, n, h', res) \<Rightarrow> (res @ map Destroy (concat (own_values pool2)), n, h'))"
  unfolding reconcile_def pass1_result [OF decode_fen_distinct]
  by (simp add: pass2_acc split: prod.splits)

lemma pool_after_pass1_ok: "pool_ok (pool_after_pass1 cur entries)"
  unfolding pool_after_pass1_def by (rule pass1_pool_ok) (rule make_pool_ok)

lemma reconcile_matches:
  assumes "reconcile fen cur h = (out, n, h')" "failed_creations out = []"
  shows "fst ` set n = fst ` set (decode_fen fen)"
    and "map_of n sq = Some q \<Longrightarrow> map_of (decode_fen fen) sq = Some (pieceType q)"
    and "distinct (map fst n)"
proof -
  let ?T = "decode_fen fen"
  obtain pool2 n2 h2 res where r: "pass2_run (pending_of cur ?T) (pool_after_pass1 cur ?T) (kept cur ?T) h
      = (pool2, n2, h2, res)"
    by (metis prod_cases4)
  have o: "out = res @ map Destroy (concat (own_values pool2))" and n: "n = n2"
    using assms(1) unfolding reconcile_unfold r by simp_all
  have f: "failed_creations res = []" using assms(2) unfolding o by simp
  note e = pass2_run_entries [OF pool_after_pass1_ok r]
  show "fst ` set n = fst ` set ?T"
    using e f kept_pending_keys [of cur ?T] unfolding n by simp
  show "distinct (map fst n)"
    using e kept_distinct [OF decode_fen_distinct, of cur fen] unfolding n by simp
  show "map_of (decode_fen fen) sq = Some (pieceType q)" if "map_of n sq = Some q"
  proof -
    from e that have "map_of (kept cur ?T) sq = Some q \<or> (sq, pieceType q) \<in> set (pending_of cur ?T)"
      unfolding n by blast
    then have "(sq, pieceType q) \<in> set ?T"
    proof
      assume "map_of (kept cur ?T) sq = Some q"
      then have "(sq, q) \<in> set (kept cur ?T)" by (rule map_of_SomeD)
      then show ?thesis by (simp add: kept_set)
    next
      assume "(sq, pieceType q) \<in> set (pending_of cur ?T)"
      then show ?thesis by (simp add: pending_filter)
    qed
    then show ?thesis using decode_fen_distinct by (simp add: map_of_eq_Some_iff)
  qed
qed

lemma syncBoard_parts:
  "fst (syncBoard E st)
   = SyncStart # (if piecesRoot st then [] else [NewContainer])
     @ fst (reconcile (chess_fen E (chess st)) (pieces st) (scene st)) @ [SyncDone]"
  "pieces (snd (syncBoard E st)) = fst (snd (reconcile (chess_fen E (chess st)) (pieces st) (scene st)))"
  "scene (snd (syncBoard E st)) = snd (snd (reconcile (chess_fen E (chess st)) (pieces st) (scene st)))"
  "chess (snd (syncBoard E st)) = chess st"
  "tiles (snd (syncBoard E st)) = tiles st"
  "selectedSquare (snd (syncBoard E st)) = selectedSquare st"
  "listenersSetup (snd (syncBoard E st)) = listenersSetup st"
  "piecesRoot (snd (syncBoard E st)) = True"
  by (simp_all add: syncBoard_def Let_def split: prod.splits)

text \<open>
  Claim C1. For every FEN the engine reports, if no creation failed during the run of
  \<open>syncBoard\<close>, then the keys of the new piece map are exactly the squares decoded from
  the placement field, and the object stored for a square carries the descriptor decoded
  for it.
\<close>

theorem sync_matches_fen:
  assumes "failed_creations (fst (syncBoard E st)) = []"
  shows "fst ` set (pieces (snd (syncBoard E st))) = fst ` set (decode_fen (chess_fen E (chess st)))
       \<and> (\<forall>sq p. map_of (pieces (snd (syncBoard E st))) sq = Some p
             \<longrightarrow> map_of (decode_fen (chess_fen E (chess st))) sq = Some (pieceType p))
       \<and> distinct (map fst (pieces (snd (syncBoard E st))))"
proof -
  obtain out n h' where r: "reconcile (chess_fen E (chess st)) (pieces st) (scene st) = (out, n, h')"
    by (metis prod_cases3)
  have f: "failed_creations out = []"
    using assms unfolding syncBoard_parts r by (simp split: if_splits)
  show ?thesis
    unfolding syncBoard_parts r
    using reconcile_matches [OF r f] by simp
qed

theorem sync_matches_fen_witness:
  "failed_creations (fst (syncBoard script_engine (init_state (two_kings, [])))) = []
   \<and> fst ` set (pieces (snd (syncBoard script_engine (init_state (two_kings, []))))) = {''a8'', ''a1''}"
proof -
  have h: "failed_creations (fst (syncBoard script_engine (init_state (two_kings, [])))) = []"
    by code_simp
  have d: "decode_fen (chess_fen script_engine (chess (init_state (two_kings, []))))
           = [(''a8'', CHR ''k''), (''a1'', CHR ''K'')]"
    by code_simp
  from sync_matches_fen [OF h] show ?thesis using h unfolding d by simp
qed

lemma filter_key:
  "distinct (map fst xs) \<Longrightarrow> map_of xs k = Some v \<Longrightarrow> filter (\<lambda>kv. fst kv = k) xs = [(k, v)]"
proof (induction xs)
  case Nil
  then show ?case by simp
next
  case (Cons a xs)
  show ?case
  proof (cases "fst a = k")
    case True
    then have "k \<notin> fst ` set xs" using Cons.prems(1) by auto
    then have "filter (\<lambda>kv. fst kv = k) xs = []" by (auto simp: filter_empty_conv)
    then show ?thesis using True Cons.prems(2) by (cases a) simp
  next
    case False
    then show ?thesis using Cons by simp
  qed
qed

lemma concat_own_values_mset: "mset (concat (own_values al)) = mset (pool_all al)"
proof -
  have "mset (concat (own_values al)) = \<Sum>\<^sub># (image_mset mset (mset (own_values al)))"
    by (simp only: mset_concat sum_mset_sum_list [symmetric] mset_map)
  also have "\<dots> = \<Sum>\<^sub># (image_mset mset (mset (map snd al)))"
    by (simp only: own_values_mset)
  also have "\<dots> = mset (concat (map snd al))"
    by (simp only: mset_concat sum_mset_sum_list [symmetric] mset_map)
  finally show ?thesis by (simp add: pool_all_def)
qed

lemma kept_map:
  assumes "distinct (map fst entries)" "distinct (map fst cur)"
  shows "map_of (kept cur entries) sq
         = (if map_option pieceType (map_of cur sq) = map_of entries sq then map_of cur sq else None)"
proof (cases "map_of cur sq")
  case None
  then have "sq \<notin> fst ` set (kept cur entries)"
    using kept_set [of sq _ cur entries] by force
  then have "map_of (kept cur entries) sq = None" by (simp add: map_of_eq_None_iff)
  then show ?thesis using None by simp
next
  case (Some p)
  show ?thesis
  proof (cases "map_of entries sq = Some (pieceType p)")
    case True
    then have "(sq, p) \<in> set (kept cur entries)"
      using Some by (simp add: kept_set map_of_eq_Some_iff [OF assms(1)])
    then have "map_of (kept cur entries) sq = Some p"
      using kept_distinct [OF assms(1)] by (simp add: map_of_eq_Some_iff)
    then show ?thesis using Some True by simp
  next
    case False
    have "sq \<notin> fst ` set (kept cur entries)"
    proof
      assume "sq \<in> fst ` set (kept cur entries)"
      then obtain q where "(sq, q) \<in> set (kept cur entries)" by force
      then have "map_of cur sq = Some q" "(sq, pieceType q) \<in> set entries"
        by (simp_all add: kept_set)
      then show False using Some False by (simp add: map_of_eq_Some_iff [OF assms(1)])
    qed
    then have "map_of (kept cur entries) sq = None" by (simp add: map_of_eq_None_iff)
    then show ?thesis using Some False by simp
  qed
qed

lemma pool_after_pass1_mset:
  assumes "distinct (map fst entries)" "distinct (map fst cur)"
  shows "mset (pool_all (pool_after_pass1 cur entries)) = mset (map snd (leftover cur entries))"
  unfolding pool_after_pass1_def by (rule pass1_summary(3) [OF assms])

lemma pool_entry_count:
  "distinct (map fst pool) \<Longrightarrow> map_of pool c = Some l \<Longrightarrow>
   count (mset l) x \<le> count (mset (pool_all pool)) x"
  by (induction pool) (auto simp: pool_all_def split: if_splits)

lemma reconcile_none:
  assumes "distinct (map fst cur)"
    and "pending_of cur (decode_fen fen) = []" and "leftover cur (decode_fen fen) = []"
  shows "reconcile fen cur h = ([], kept cur (decode_fen fen), h)"
proof -
  have "mset (pool_all (pool_after_pass1 cur (decode_fen fen))) = {#}"
    using pool_after_pass1_mset [OF decode_fen_distinct assms(1), of fen] assms(3) by simp
  then have "concat (own_values (pool_after_pass1 cur (decode_fen fen))) = []"
    using concat_own_values_mset [of "pool_after_pass1 cur (decode_fen fen)"] by simp
  then show ?thesis unfolding reconcile_unfold assms(2) by simp
qed

lemma reconcile_single:
  assumes d: "distinct (map fst cur)"
    and pe: "pending_of cur (decode_fen fen) = [(B, pieceType pA)]"
    and lo: "mset (map snd (leftover cur (decode_fen fen))) = add_mset pA R"
    and ty: "\<forall>q \<in># R. pieceType q \<noteq> pieceType pA"
  shows "\<exists>ds. mset ds = R \<and>
           reconcile fen cur h
           = (Relocate pA (getPiecePos B (pieceType pA)) # map Destroy ds,
              AList.update B pA (kept cur (decode_fen fen)), h)"
proof -
  let ?T = "decode_fen fen"
  let ?pool = "pool_after_pass1 cur ?T"
  let ?c = "pieceType pA"
  have ok: "pool_ok ?pool" by (rule pool_after_pass1_ok)
  have m: "mset (pool_all ?pool) = add_mset pA R"
    using pool_after_pass1_mset [OF decode_fen_distinct d, of fen] lo by simp
  then have "pA \<in># mset (pool_all ?pool)" by simp
  then have "pA \<in> set (pool_all ?pool)" by simp
  from pool_member [OF ok this] obtain l where l: "map_of ?pool ?c = Some l" "pA \<in> set l"
    by blast
  have lt: "pieceType x = ?c" if "x \<in> set l" for x
  proof -
    have "(?c, l) \<in> set ?pool" using l(1) by (rule map_of_SomeD)
    then show ?thesis using ok that by (auto simp: pool_ok_def)
  qed
  have notR: "pA \<notin># R" using ty by auto
  have "mset l = {#pA#}"
  proof (rule multiset_eqI)
    fix x
    have le: "count (mset l) x \<le> count (add_mset pA R) x"
      using pool_entry_count [OF _ l(1), of x] ok unfolding m by (simp add: pool_ok_def)
    show "count (mset l) x = count {#pA#} x"
    proof (cases "x = pA")
      case True
      have "count (mset l) pA \<le> 1" using le notR True by (simp add: not_in_iff)
      moreover have "0 < count (mset l) pA" using l(2) by (rule count_mset_gt_0)
      ultimately have "count (mset l) pA = 1" by linarith
      then show ?thesis using True by simp
    next
      case False
      have "x \<notin> set l"
      proof
        assume x: "x \<in> set l"
        then have "x \<notin># R" using lt [OF x] ty by auto
        then have "count (add_mset pA R) x = 0" using False by (simp add: not_in_iff)
        then have "count (mset l) x = 0" using le by simp
        then show False using x by (simp add: count_mset_0_iff)
      qed
      then show ?thesis using False by (simp add: count_mset_0_iff)
    qed
  qed
  then have l1: "l = [pA]" by (simp only: mset_single_iff)
  have "mset (pool_all (AList.map_entry ?c butlast ?pool)) + {#last l#} = mset (pool_all ?pool)"
    using ok l(1) by (rule pool_pop_mset) (simp add: l1)
  then have rest: "mset (pool_all (AList.map_entry ?c butlast ?pool)) = R"
    unfolding m l1 by simp
  let ?ds = "concat (own_values (AList.map_entry ?c butlast ?pool))"
  have "mset ?ds = R" using concat_own_values_mset [of "AList.map_entry ?c butlast ?pool"] rest by simp
  moreover have "reconcile fen cur h
           = (Relocate pA (getPiecePos B ?c) # map Destroy ?ds, AList.update B pA (kept cur ?T), h)"
    unfolding reconcile_unfold pe using l(1) by (simp add: l1)
  ultimately show ?thesis by blast
qed

lemma reconcile_again:
  assumes "reconcile fen cur h = (out, n, h')" "failed_creations out = []"
  shows "pending_of n (decode_fen fen) = []"
    and "leftover n (decode_fen fen) = []"
    and "reconcile fen n h2 = ([], kept n (decode_fen fen), h2)"
    and "map_of (kept n (decode_fen fen)) = map_of n"
proof -
  let ?T = "decode_fen fen"
  note m = reconcile_matches [OF assms]
  have dT: "distinct (map fst ?T)" by (rule decode_fen_distinct)
  have "\<forall>kv \<in> set ?T. \<not> map_option pieceType (map_of n (fst kv)) \<noteq> Some (snd kv)"
  proof
    fix kv
    assume kv: "kv \<in> set ?T"
    then have "fst kv \<in> fst ` set n" unfolding m(1) by (rule imageI)
    then obtain q where q: "(fst kv, q) \<in> set n" by force
    then have mq: "map_of n (fst kv) = Some q" using m(3) by (simp add: map_of_eq_Some_iff)
    then have "map_of ?T (fst kv) = Some (pieceType q)" by (rule m(2))
    moreover have "map_of ?T (fst kv) = Some (snd kv)" using kv dT by (simp add: map_of_eq_Some_iff)
    ultimately show "\<not> map_option pieceType (map_of n (fst kv)) \<noteq> Some (snd kv)"
      using mq by simp
  qed
  then show p: "pending_of n ?T = []"
    unfolding pending_filter filter_empty_conv .
  have "\<forall>kv \<in> set n. \<not> map_of ?T (fst kv) \<noteq> Some (pieceType (snd kv))"
  proof
    fix kv
    assume "kv \<in> set n"
    then have "map_of n (fst kv) = Some (snd kv)" using m(3) by (simp add: map_of_eq_Some_iff)
    then have "map_of ?T (fst kv) = Some (pieceType (snd kv))" by (rule m(2))
    then show "\<not> map_of ?T (fst kv) \<noteq> Some (pieceType (snd kv))" by simp
  qed
  then show l: "leftover n ?T = []"
    unfolding leftover_def filter_empty_conv .
  show "reconcile fen n h2 = ([], kept n ?T, h2)"
    using m(3) p l by (rule reconcile_none)
  show "map_of (kept n ?T) = map_of n"
  proof (rule ext)
    fix sq
    show "map_of (kept n ?T) sq = map_of n sq"
    proof (cases "map_of n sq")
      case None
      then show ?thesis by (simp add: kept_map [OF dT m(3)])
    next
      case (Some q)
      then have "map_of ?T sq = Some (pieceType q)" by (rule m(2))
      then show ?thesis using Some by (simp add: kept_map [OF dT m(3)])
    qed
  qed
qed

lemma filter_two_keys:
  assumes "A \<noteq> B"
  shows "mset (filter (\<lambda>kv. fst kv = A \<or> fst kv = B) xs)
         = mset (filter (\<lambda>kv. fst kv = A) xs) + mset (filter (\<lambda>kv. fst kv = B) xs)"
  using assms by (induction xs) auto

lemma reconcile_step:
  assumes d: "distinct (map fst cur)"
    and A: "map_of cur A = Some pA"
    and AB: "A \<noteq> B"
    and nb: "map_option pieceType (map_of cur B) \<noteq> Some (pieceType pA)"
    and T: "map_of (decode_fen fen)
            = (map_option pieceType \<circ> map_of cur)(A := None, B \<mapsto> pieceType pA)"
  shows "\<exists>ds. mset ds = mset (map snd (filter (\<lambda>kv. fst kv = B) cur)) \<and>
           reconcile fen cur h
           = (Relocate pA (getPiecePos B (pieceType pA)) # map Destroy ds,
              AList.update B pA (kept cur (decode_fen fen)), h)"
    and "map_of (AList.update B pA (kept cur (decode_fen fen))) = (map_of cur)(A := None, B \<mapsto> pA)"
proof -
  let ?T = "decode_fen fen"
  let ?c = "pieceType pA"
  have dT: "distinct (map fst ?T)" by (rule decode_fen_distinct)
  have TB: "map_of ?T B = Some ?c" unfolding T by simp
  have TA: "map_of ?T A = None" unfolding T using AB by simp
  have To: "map_of ?T sq = map_option pieceType (map_of cur sq)" if "sq \<noteq> A" "sq \<noteq> B" for sq
    unfolding T using that by simp
  have "pending_of cur ?T = filter (\<lambda>kv. fst kv = B) ?T"
    unfolding pending_filter
  proof (rule filter_cong [OF refl])
    fix kv
    assume "kv \<in> set ?T"
    then have k: "map_of ?T (fst kv) = Some (snd kv)" using dT by (simp add: map_of_eq_Some_iff)
    show "(map_option pieceType (map_of cur (fst kv)) \<noteq> Some (snd kv)) = (fst kv = B)"
    proof (cases "fst kv = B")
      case True
      then show ?thesis using k TB nb by simp
    next
      case False
      then have "fst kv \<noteq> A" using k TA by auto
      then show ?thesis using False k To [of "fst kv"] by simp
    qed
  qed
  then have pe: "pending_of cur ?T = [(B, ?c)]"
    using filter_key [OF dT TB] by simp
  have "leftover cur ?T = filter (\<lambda>kv. fst kv = A \<or> fst kv = B) cur"
    unfolding leftover_def
  proof (rule filter_cong [OF refl])
    fix kv
    assume "kv \<in> set cur"
    then have k: "map_of cur (fst kv) = Some (snd kv)" using d by (simp add: map_of_eq_Some_iff)
    show "(map_of ?T (fst kv) \<noteq> Some (pieceType (snd kv))) = (fst kv = A \<or> fst kv = B)"
    proof (cases "fst kv = A \<or> fst kv = B")
      case True
      then show ?thesis using k TA TB nb by auto
    next
      case False
      then show ?thesis using k To [of "fst kv"] by simp
    qed
  qed
  then have "mset (leftover cur ?T)
             = mset (filter (\<lambda>kv. fst kv = A) cur) + mset (filter (\<lambda>kv. fst kv = B) cur)"
    by (simp only: filter_two_keys [OF AB])
  then have lo: "mset (map snd (leftover cur ?T))
             = add_mset pA (mset (map snd (filter (\<lambda>kv. fst kv = B) cur)))"
    unfolding filter_key [OF d A] mset_map by simp
  have ty: "\<forall>q \<in># mset (map snd (filter (\<lambda>kv. fst kv = B) cur)). pieceType q \<noteq> ?c"
  proof
    fix q
    assume "q \<in># mset (map snd (filter (\<lambda>kv. fst kv = B) cur))"
    then have "(B, q) \<in> set cur" by auto
    then have "map_of cur B = Some q" using d by (simp add: map_of_eq_Some_iff)
    then show "pieceType q \<noteq> ?c" using nb by simp
  qed
  show "\<exists>ds. mset ds = mset (map snd (filter (\<lambda>kv. fst kv = B) cur)) \<and>
           reconcile fen cur h
           = (Relocate pA (getPiecePos B ?c) # map Destroy ds, AList.update B pA (kept cur ?T), h)"
    using d pe lo ty by (rule reconcile_single)
  show "map_of (AList.update B pA (kept cur ?T)) = (map_of cur)(A := None, B \<mapsto> pA)"
  proof (rule ext)
    fix sq
    show "map_of (AList.update B pA (kept cur ?T)) sq = ((map_of cur)(A := None, B \<mapsto> pA)) sq"
    proof (cases "sq = B")
      case True
      then show ?thesis by (simp add: AList.update_conv')
    next
      case False
      show ?thesis
      proof (cases "sq = A")
        case True
        then show ?thesis using False A TA by (simp add: AList.update_conv' kept_map [OF dT d])
      next
        case nA: False
        then show ?thesis using False To [of sq] by (simp add: AList.update_conv' kept_map [OF dT d])
      qed
    qed
  qed
qed

section \<open>Idempotence, quiet moves and captures\<close>

text \<open>
  Claim C2, as amended. If no creation failed during a run of \<open>syncBoard\<close>, a second run
  right after it (the engine's FEN unchanged) emits nothing but its two log lines: it
  creates, moves and destroys no object; pass 1 leaves no square pending and leaves the
  pool empty; and the piece map is the same mapping as before.
\<close>

theorem sync_idempotent:
  assumes "failed_creations (fst (syncBoard E st)) = []"
  shows "fst (syncBoard E (snd (syncBoard E st))) = [SyncStart, SyncDone]
       \<and> created (fst (syncBoard E (snd (syncBoard E st)))) = []
       \<and> destroyed (fst (syncBoard E (snd (syncBoard E st)))) = []
       \<and> pending_of (pieces (snd (syncBoard E st)))
            (decode_fen (chess_fen E (chess (snd (syncBoard E st))))) = []
       \<and> pool_all (pool_after_pass1 (pieces (snd (syncBoard E st)))
            (decode_fen (chess_fen E (chess (snd (syncBoard E st)))))) = []
       \<and> map_of (pieces (snd (syncBoard E (snd (syncBoard E st)))))
          = map_of (pieces (snd (syncBoard E st)))"
proof -
  let ?fen = "chess_fen E (chess st)"
  obtain out n h' where r: "reconcile ?fen (pieces st) (scene st) = (out, n, h')"
    by (metis prod_cases3)
  have f: "failed_creations out = []"
    using assms unfolding syncBoard_parts r by (simp split: if_splits)
  note a = reconcile_again [OF r f]
  have dn: "distinct (map fst n)" using reconcile_matches(3) [OF r f] .
  have s1: "pieces (snd (syncBoard E st)) = n" "scene (snd (syncBoard E st)) = h'"
    "chess (snd (syncBoard E st)) = chess st" "piecesRoot (snd (syncBoard E st))"
    unfolding syncBoard_parts r by simp_all
  have pool: "pool_all (pool_after_pass1 n (decode_fen ?fen)) = []"
    using pool_after_pass1_mset [OF decode_fen_distinct dn, of ?fen] a(2) by simp
  have s2: "fst (syncBoard E (snd (syncBoard E st))) = [SyncStart, SyncDone]"
    "pieces (snd (syncBoard E (snd (syncBoard E st)))) = kept n (decode_fen ?fen)"
    unfolding syncBoard_parts [of E "snd (syncBoard E st)"] s1 a(3) using s1(4) by simp_all
  show ?thesis
    unfolding s2 unfolding s1 using a(1,4) pool by simp
qed

theorem sync_idempotent_witness:
  "failed_creations (fst (syncBoard script_engine (init_state (pawn_e2, [])))) = []
   \<and> fst (syncBoard script_engine (snd (syncBoard script_engine (init_state (pawn_e2, [])))))
     = [SyncStart, SyncDone]"
proof -
  have h: "failed_creations (fst (syncBoard script_engine (init_state (pawn_e2, [])))) = []"
    by code_simp
  from sync_idempotent [OF h] show ?thesis using h by simp
qed

text \<open>
  Without that proviso the claim fails: when the host fails the creation of the first
  piece during the first run, the square stays without an object, and the second run with
  the same FEN creates one.
\<close>

theorem sync_idempotent_counterexample:
  "created (fst (syncBoard script_engine (snd (syncBoard script_engine faulty_start))))
   = [\<lparr>oid = 1, pieceType = CHR ''k''\<rparr>]"
  by code_simp

text \<open>
  Claim C3. When the target mapping is the current piece map with one descriptor gone
  from square \<open>A\<close> and present on the previously empty square \<open>B\<close>, \<open>syncBoard\<close> moves
  one object (the one that stood on \<open>A\<close>; so at most 2), creates none and destroys none.
\<close>

theorem sync_quiet_move:
  assumes "distinct (map fst (pieces st))"
    and "map_of (pieces st) A = Some pA"
    and "map_of (pieces st) B = None"
    and "map_of (decode_fen (chess_fen E (chess st)))
         = (map_option pieceType \<circ> map_of (pieces st))(A := None, B \<mapsto> pieceType pA)"
  shows "relocated (fst (syncBoard E st)) = [pA]
       \<and> length (relocated (fst (syncBoard E st))) \<le> 2
       \<and> created (fst (syncBoard E st)) = []
       \<and> destroyed (fst (syncBoard E st)) = []
       \<and> fst (reconcile (chess_fen E (chess st)) (pieces st) (scene st))
         = [Relocate pA (getPiecePos B (pieceType pA))]
       \<and> map_of (pieces (snd (syncBoard E st))) = (map_of (pieces st))(A := None, B \<mapsto> pA)"
proof -
  have AB: "A \<noteq> B" using assms(2,3) by auto
  have nb: "map_option pieceType (map_of (pieces st) B) \<noteq> Some (pieceType pA)"
    using assms(3) by simp
  have "filter (\<lambda>kv. fst kv = B) (pieces st) = []"
    unfolding filter_empty_conv using assms(3) by (auto simp: map_of_eq_None_iff)
  with reconcile_step(1) [OF assms(1,2) AB nb assms(4), of "scene st"]
  have r: "reconcile (chess_fen E (chess st)) (pieces st) (scene st)
           = ([Relocate pA (getPiecePos B (pieceType pA))],
              AList.update B pA (kept (pieces st) (decode_fen (chess_fen E (chess st)))), scene st)"
    by auto
  show ?thesis
    unfolding syncBoard_parts r
    using reconcile_step(2) [OF assms(1,2) AB nb assms(4)] by simp
qed

theorem sync_quiet_move_witness:
  "relocated (fst (syncBoard script_engine quiet_move_state)) = [\<lparr>oid = 1, pieceType = CHR ''P''\<rparr>]
   \<and> created (fst (syncBoard script_engine quiet_move_state)) = []
   \<and> destroyed (fst (syncBoard script_engine quiet_move_state)) = []"
proof -
  have p: "pieces quiet_move_state
           = [(''a8'', \<lparr>oid = 0, pieceType = CHR ''k''\<rparr>), (''e2'', \<lparr>oid = 1, pieceType = CHR ''P''\<rparr>),
              (''a1'', \<lparr>oid = 2, pieceType = CHR ''K''\<rparr>)]"
    by code_simp
  have t: "decode_fen (chess_fen script_engine (chess quiet_move_state))
           = [(''a8'', CHR ''k''), (''e4'', CHR ''P''), (''a1'', CHR ''K'')]"
    by code_simp
  have h1: "distinct (map fst (pieces quiet_move_state))" unfolding p by simp
  have h2: "map_of (pieces quiet_move_state) ''e2'' = Some \<lparr>oid = 1, pieceType = CHR ''P''\<rparr>"
    unfolding p by simp
  have h3: "map_of (pieces quiet_move_state) ''e4'' = None" unfolding p by simp
  have h4: "map_of (decode_fen (chess_fen script_engine (chess quiet_move_state)))
            = (map_option pieceType \<circ> map_of (pieces quiet_move_state))
                (''e2'' := None, ''e4'' \<mapsto> pieceType \<lparr>oid = 1, pieceType = CHR ''P''\<rparr>)"
    unfolding p t by (rule ext) simp
  from sync_quiet_move [OF h1 h2 h3 h4] show ?thesis by simp
qed

text \<open>
  Claim C4. When the target mapping is the current piece map with the descriptor of
  square \<open>A\<close> gone from \<open>A\<close> and replacing a different descriptor on the occupied square
  \<open>B\<close>, \<open>syncBoard\<close> destroys exactly the object that stood on \<open>B\<close>, moves exactly the
  object that stood on \<open>A\<close> (in pass 2, out of the pool), and creates none.
\<close>

theorem sync_capture:
  assumes "distinct (map fst (pieces st))"
    and "map_of (pieces st) A = Some pA"
    and "map_of (pieces st) B = Some pB"
    and "pieceType pB \<noteq> pieceType pA"
    and "map_of (decode_fen (chess_fen E (chess st)))
         = (map_option pieceType \<circ> map_of (pieces st))(A := None, B \<mapsto> pieceType pA)"
  shows "destroyed (fst (syncBoard E st)) = [pB]
       \<and> relocated (fst (syncBoard E st)) = [pA]
       \<and> created (fst (syncBoard E st)) = []
       \<and> fst (reconcile (chess_fen E (chess st)) (pieces st) (scene st))
         = [Relocate pA (getPiecePos B (pieceType pA)), Destroy pB]
       \<and> map_of (pieces (snd (syncBoard E st))) = (map_of (pieces st))(A := None, B \<mapsto> pA)"
proof -
  have AB: "A \<noteq> B" using assms(2,3,4) by auto
  have nb: "map_option pieceType (map_of (pieces st) B) \<noteq> Some (pieceType pA)"
    using assms(3,4) by simp
  have "filter (\<lambda>kv. fst kv = B) (pieces st) = [(B, pB)]"
    using assms(1,3) by (rule filter_key)
  with reconcile_step(1) [OF assms(1,2) AB nb assms(5), of "scene st"]
  obtain ds where ds: "mset ds = {#pB#}"
    "reconcile (chess_fen E (chess st)) (pieces st) (scene st)
           = (Relocate pA (getPiecePos B (pieceType pA)) # map Destroy ds,
              AList.update B pA (kept (pieces st) (decode_fen (chess_fen E (chess st)))), scene st)"
    by auto
  have "ds = [pB]" using ds(1) by (simp only: mset_single_iff)
  then show ?thesis
    unfolding syncBoard_parts ds(2)
    using reconcile_step(2) [OF assms(1,2) AB nb assms(5)] by simp
qed

theorem sync_capture_witness:
  "destroyed (fst (syncBoard script_engine capture_state)) = [\<lparr>oid = 1, pieceType = CHR ''p''\<rparr>]
   \<and> relocated (fst (syncBoard script_engine capture_state)) = [\<lparr>oid = 2, pieceType = CHR ''P''\<rparr>]
   \<and> created (fst (syncBoard script_engine capture_state)) = []"
proof -
  have p: "pieces capture_state
           = [(''a8'', \<lparr>oid = 0, pieceType = CHR ''k''\<rparr>), (''d5'', \<lparr>oid = 1, pieceType = CHR ''p''\<rparr>),
              (''e4'', \<lparr>oid = 2, pieceType = CHR ''P''\<rparr>), (''a1'', \<lparr>oid = 3, pieceType = CHR ''K''\<rparr>)]"
    by code_simp
  have t: "decode_fen (chess_fen script_engine (chess capture_state))
           = [(''a8'', CHR ''k''), (''d5'', CHR ''P''), (''a1'', CHR ''K'')]"
    by code_simp
  have h1: "distinct (map fst (pieces capture_state))" unfolding p by simp
  have h2: "map_of (pieces capture_state) ''e4'' = Some \<lparr>oid = 2, pieceType = CHR ''P''\<rparr>"
    unfolding p by simp
  have h3: "map_of (pieces capture_state) ''d5'' = Some \<lparr>oid = 1, pieceType = CHR ''p''\<rparr>"
    unfolding p by simp
  have h4: "pieceType \<lparr>oid = 1, pieceType = CHR ''p''\<rparr> \<noteq> pieceType \<lparr>oid = 2, pieceType = CHR ''P''\<rparr>"
    by simp
  have h5: "map_of (decode_fen (chess_fen script_engine (chess capture_state)))
            = (map_option pieceType \<circ> map_of (pieces capture_state))
                (''e4'' := None, ''d5'' \<mapsto> pieceType \<lparr>oid = 2, pieceType = CHR ''P''\<rparr>)"
    unfolding p t by (rule ext) simp
  from sync_capture [OF h1 h2 h3 h4 h5] show ?thesis by simp
qed

section \<open>No object under two squares\<close>

lemma pass2_run_distinct:
  assumes "pool_ok pool" "pass2_run pend pool next h = (p, n, h', res)"
    and "distinct (map fst pend)" "fst ` set pend \<inter> fst ` set next = {}"
    and "distinct (map snd next @ pool_all pool)"
    and "\<forall>q \<in> set (map snd next @ pool_all pool). oid q < fst h"
  shows "distinct (map snd n @ pool_all p) \<and> (\<forall>q \<in> set (map snd n @ pool_all p). oid q < fst h')"
  using assms
proof (induction pend arbitrary: pool "next" h p n h' res)
  case Nil
  then show ?case by simp
next
  case (Cons a pend)
  obtain sq ch where a: "a = (sq, ch)" by (cases a)
  have fresh: "sq \<notin> fst ` set next" using Cons.prems(4) by (auto simp: a)
  have dp: "distinct (map fst pend)" and sqp: "sq \<notin> fst ` set pend"
    using Cons.prems(3) by (auto simp: a)
  have disj: "fst ` set pend \<inter> fst ` set next = {}" using Cons.prems(4) by (auto simp: a)
  have disj': "fst ` set pend \<inter> fst ` set (next @ [(sq, x)]) = {}" for x
    using disj sqp by auto
  from Cons.prems(2) [unfolded a] show ?case
  proof (cases rule: pass2_run_Cons_cases)
    case (reuse l res')
    let ?pool' = "AList.map_entry ch butlast pool"
    let ?next' = "next @ [(sq, last l)]"
    have m: "mset (map snd ?next' @ pool_all ?pool') = mset (map snd next @ pool_all pool)"
      using pool_pop_mset [OF Cons.prems(1) reuse(1,2)] by (simp add: ac_simps)
    have d': "distinct (map snd ?next' @ pool_all ?pool')"
      using Cons.prems(5) mset_eq_imp_distinct_iff [OF m] by blast
    have b': "\<forall>q \<in> set (map snd ?next' @ pool_all ?pool'). oid q < fst h"
      using Cons.prems(6) mset_eq_setD [OF m] by blast
    show ?thesis
      using Cons.IH [OF pool_ok_pop [OF Cons.prems(1)] reuse(3) [unfolded update_fresh [OF fresh]]
          dp disj' d' b'] .
  next
    case (fail evs h1 res')
    have "fst h1 = fst h" using createPiece_cases [OF fail(1)] by simp
    then have b': "\<forall>q \<in> set (map snd next @ pool_all pool). oid q < fst h1"
      using Cons.prems(6) by simp
    show ?thesis using Cons.IH [OF Cons.prems(1) fail(2) dp disj Cons.prems(5) b'] .
  next
    case (create piece evs h1 res')
    have pc: "piece = \<lparr>oid = fst h, pieceType = ch\<rparr>" and h1: "fst h1 = Suc (fst h)"
      using createPiece_cases [OF create(1)] by auto
    let ?next' = "next @ [(sq, piece)]"
    have new: "piece \<notin> set (map snd next @ pool_all pool)"
    proof
      assume "piece \<in> set (map snd next @ pool_all pool)"
      then have "oid piece < fst h" using Cons.prems(6) by blast
      then show False by (simp add: pc)
    qed
    have d': "distinct (map snd ?next' @ pool_all pool)"
      using Cons.prems(5) new by auto
    have b': "\<forall>q \<in> set (map snd ?next' @ pool_all pool). oid q < fst h1"
    proof
      fix q
      assume "q \<in> set (map snd ?next' @ pool_all pool)"
      then have "q = piece \<or> q \<in> set (map snd next @ pool_all pool)" by auto
      then show "oid q < fst h1"
      proof
        assume "q = piece"
        then show ?thesis by (simp add: pc h1)
      next
        assume "q \<in> set (map snd next @ pool_all pool)"
        then have "oid q < fst h" using Cons.prems(6) by blast
        then show ?thesis by (simp add: h1)
      qed
    qed
    show ?thesis
      using Cons.IH [OF Cons.prems(1) create(2) [unfolded update_fresh [OF fresh]] dp disj' d' b'] .
  qed
qed

lemma kept_leftover_mset:
  assumes "distinct (map fst entries)" "distinct (map fst cur)"
  shows "mset (map snd (kept cur entries)) + mset (map snd (leftover cur entries)) = mset (map snd cur)"
proof -
  have "mset (kept cur entries) + mset (leftover cur entries) = mset cur"
    unfolding kept_mset [OF assms] leftover_def mset_filter
    by (rule multiset_partition [symmetric])
  then have "image_mset snd (mset (kept cur entries) + mset (leftover cur entries))
             = image_mset snd (mset cur)"
    by simp
  then show ?thesis by simp
qed

lemma reconcile_distinct:
  assumes "distinct (map fst cur)" "distinct (map snd cur)"
    and "\<forall>q \<in> set (map snd cur). oid q < fst h"
    and "reconcile fen cur h = (out, n, h')"
  shows "distinct (map snd n)" and "\<forall>q \<in> set (map snd n). oid q < fst h'"
proof -
  let ?T = "decode_fen fen"
  let ?pool = "pool_after_pass1 cur ?T"
  have dT: "distinct (map fst ?T)" by (rule decode_fen_distinct)
  obtain pool2 n2 h2 res where r: "pass2_run (pending_of cur ?T) ?pool (kept cur ?T) h
      = (pool2, n2, h2, res)"
    by (metis prod_cases4)
  have n: "n = n2" and h: "h' = h2"
    using assms(4) unfolding reconcile_unfold r by simp_all
  have m: "mset (map snd (kept cur ?T) @ pool_all ?pool) = mset (map snd cur)"
    using kept_leftover_mset [OF dT assms(1)] pool_after_pass1_mset [OF dT assms(1)] by simp
  have d1: "distinct (map snd (kept cur ?T) @ pool_all ?pool)"
    using assms(2) mset_eq_imp_distinct_iff [OF m] by blast
  have b1: "\<forall>q \<in> set (map snd (kept cur ?T) @ pool_all ?pool). oid q < fst h"
    using assms(3) mset_eq_setD [OF m] by blast
  have dp: "distinct (map fst (pending_of cur ?T))"
    unfolding pending_filter using dT by (rule distinct_map_filter)
  have disj: "fst ` set (pending_of cur ?T) \<inter> fst ` set (kept cur ?T) = {}"
    using kept_pending_disjoint [OF dT, of cur] by blast
  note res = pass2_run_distinct [OF pool_after_pass1_ok r dp disj d1 b1]
  show "distinct (map snd n)" using res unfolding n by simp
  show "\<forall>q \<in> set (map snd n). oid q < fst h'" using res unfolding n h by simp
qed

text \<open>
  Claim C8. If the piece map before a call of \<open>syncBoard\<close> holds no object under two
  squares, neither does the map the call produces. Object identity is what the host hands
  out: every object of the map was created before (its \<open>oid\<close> is below the host's next
  one), and this too is preserved.
\<close>

theorem sync_injective:
  assumes "distinct (map fst (pieces st))"
    and "distinct (map snd (pieces st))"
    and "\<forall>q \<in> set (map snd (pieces st)). oid q < fst (scene st)"
  shows "distinct (map snd (pieces (snd (syncBoard E st))))
       \<and> distinct (map fst (pieces (snd (syncBoard E st))))
       \<and> (\<forall>q \<in> set (map snd (pieces (snd (syncBoard E st)))). oid q < fst (scene (snd (syncBoard E st))))"
proof -
  obtain out n h' where r: "reconcile (chess_fen E (chess st)) (pieces st) (scene st) = (out, n, h')"
    by (metis prod_cases3)
  obtain pool2 n2 h2 res where r2: "pass2_run (pending_of (pieces st) (decode_fen (chess_fen E (chess st))))
      (pool_after_pass1 (pieces st) (decode_fen (chess_fen E (chess st))))
      (kept (pieces st) (decode_fen (chess_fen E (chess st)))) (scene st) = (pool2, n2, h2, res)"
    by (metis prod_cases4)
  have "n = n2" using r unfolding reconcile_unfold r2 by simp
  then have dk: "distinct (map fst n)"
    using pass2_run_entries [OF pool_after_pass1_ok r2]
      kept_distinct [OF decode_fen_distinct, of "pieces st" "chess_fen E (chess st)"] by simp
  show ?thesis
    unfolding syncBoard_parts r
    using reconcile_distinct [OF assms r] dk by simp
qed

theorem sync_injective_witness:
  "distinct (map snd (pieces (snd (syncBoard script_engine capture_state))))"
proof -
  have p: "pieces capture_state
           = [(''a8'', \<lparr>oid = 0, pieceType = CHR ''k''\<rparr>), (''d5'', \<lparr>oid = 1, pieceType = CHR ''p''\<rparr>),
              (''e4'', \<lparr>oid = 2, pieceType = CHR ''P''\<rparr>), (''a1'', \<lparr>oid = 3, pieceType = CHR ''K''\<rparr>)]"
    by code_simp
  have s: "fst (scene capture_state) = 4" by code_simp
  have h1: "distinct (map fst (pieces capture_state))" unfolding p by simp
  have h2: "distinct (map snd (pieces capture_state))" unfolding p by simp
  have h3: "\<forall>q \<in> set (map snd (pieces capture_state)). oid q < fst (scene capture_state)"
    unfolding p s by simp
  from sync_injective [OF h1 h2 h3] show ?thesis by simp
qed

section \<open>The shared-state consumers\<close>

lemma syncBoard_frame:
  "chess (snd (syncBoard E st)) = chess st"
  "tiles (snd (syncBoard E st)) = tiles st"
  "selectedSquare (snd (syncBoard E st)) = selectedSquare st"
  by (simp_all add: syncBoard_def Let_def split: prod.splits)

lemma space_state_changed_delivered:
  "space_state_changed E parse cfg changes spaceState st
   = (case delivered parse cfg changes spaceState of
        None \<Rightarrow> ([], st)
      | Some ParseThrows \<Rightarrow> ([ParseFailed], st)
      | Some (FenField fen) \<Rightarrow>
          (if fen = Some ''reset''
           then (fst (syncBoard E (st\<lparr>chess := chess_reset E (chess st)\<rparr>)),
                 clearSelection cfg (snd (syncBoard E (st\<lparr>chess := chess_reset E (chess st)\<rparr>))))
           else if truthy fen
           then (fst (snd (loadFen E (the fen) (chess st)))
                 @ fst (syncBoard E (st\<lparr>chess := snd (snd (loadFen E (the fen) (chess st)))\<rparr>)),
                 snd (syncBoard E (st\<lparr>chess := snd (snd (loadFen E (the fen) (chess st)))\<rparr>)))
           else ([], st)))"
  by (simp add: space_state_changed_def delivered_def Let_def truthy_def
      split: option.splits parsed.splits prod.splits)

text \<open>
  Claim C10. Unless the record delivered to the \<open>space-state-changed\<close> handler is the
  reset sentinel, the handler leaves \<open>selectedSquare\<close> and the tile colours as they were;
  for a record whose \<open>fen\<close> field is a FEN string it loads the position and syncs the
  board; for the reset sentinel it clears the selection and restores the tile colours.
\<close>

theorem remote_fen_keeps_selection:
  "(delivered parse cfg changes spaceState \<noteq> Some (FenField (Some ''reset'')) \<longrightarrow>
      selectedSquare (snd (space_state_changed E parse cfg changes spaceState st)) = selectedSquare st
      \<and> tiles (snd (space_state_changed E parse cfg changes spaceState st)) = tiles st)
   \<and> (delivered parse cfg changes spaceState = Some (FenField (Some f)) \<and> f \<noteq> [] \<and> f \<noteq> ''reset'' \<longrightarrow>
      space_state_changed E parse cfg changes spaceState st
      = (fst (snd (loadFen E f (chess st)))
         @ fst (syncBoard E (st\<lparr>chess := snd (snd (loadFen E f (chess st)))\<rparr>)),
         snd (syncBoard E (st\<lparr>chess := snd (snd (loadFen E f (chess st)))\<rparr>))))
   \<and> (delivered parse cfg changes spaceState = Some (FenField (Some ''reset'')) \<longrightarrow>
      selectedSquare (snd (space_state_changed E parse cfg changes spaceState st)) = None
      \<and> tiles (snd (space_state_changed E parse cfg changes spaceState st))
        = tiles (clearSelection cfg st))"
  unfolding space_state_changed_delivered
  by (simp add: syncBoard_frame truthy_def clearSelection_def split: option.splits parsed.splits)

theorem remote_fen_keeps_selection_witness:
  "selectedSquare (snd (space_state_changed script_engine bare_parse lobby [''chess_game_lobby'']
      (store_with pawn_e4) ((showing (pawn_e2, []))\<lparr>selectedSquare := Some ''e2''\<rparr>)))
   = Some ''e2''
   \<and> fst (space_state_changed script_engine bare_parse lobby [''chess_game_lobby'']
      (store_with pawn_e4) ((showing (pawn_e2, []))\<lparr>selectedSquare := Some ''e2''\<rparr>))
     = [SyncStart, Relocate \<lparr>oid = 1, pieceType = CHR ''P''\<rparr> (Some (1 / 4), Some (3 / 20), Some (1 / 4)),
        SyncDone]"
proof -
  have d: "delivered bare_parse lobby [''chess_game_lobby''] (store_with pawn_e4)
           \<noteq> Some (FenField (Some ''reset''))"
    by code_simp
  have e: "fst (space_state_changed script_engine bare_parse lobby [''chess_game_lobby'']
      (store_with pawn_e4) ((showing (pawn_e2, []))\<lparr>selectedSquare := Some ''e2''\<rparr>))
     = [SyncStart, Relocate \<lparr>oid = 1, pieceType = CHR ''P''\<rparr> (Some (1 / 4), Some (3 / 20), Some (1 / 4)),
        SyncDone]"
    by code_simp
  from remote_fen_keeps_selection [of bare_parse lobby "[''chess_game_lobby'']" "store_with pawn_e4"
      script_engine "(showing (pawn_e2, []))\<lparr>selectedSquare := Some ''e2''\<rparr>"]
  show ?thesis using d e by simp
qed

text \<open>
  \<open>loadFen\<close> reports failure, and logs, only when the engine's \<open>load\<close> throws; when
  \<open>load\<close> returns, \<open>loadFen\<close> reports success whatever was returned and logs nothing.
  Either way the handler goes on to \<open>syncBoard\<close>: no caller reads what \<open>loadFen\<close> reports.
\<close>

lemma loadFen_returned: "chess_load E f c = Returned r c' \<Longrightarrow> loadFen E f c = (True, [], c')"
  by (simp add: loadFen_def)

lemma loadFen_threw: "chess_load E f c = Threw c' \<Longrightarrow> loadFen E f c = (False, [LoadFailed f], c')"
  by (simp add: loadFen_def)

lemma remote_load_then_sync:
  assumes "delivered parse cfg changes spaceState = Some (FenField (Some f))"
    and "f \<noteq> []" and "f \<noteq> ''reset''"
  shows "space_state_changed E parse cfg changes spaceState st
         = (fst (snd (loadFen E f (chess st)))
            @ fst (syncBoard E (st\<lparr>chess := snd (snd (loadFen E f (chess st)))\<rparr>)),
            snd (syncBoard E (st\<lparr>chess := snd (snd (loadFen E f (chess st)))\<rparr>)))"
  unfolding space_state_changed_delivered using assms by (simp add: truthy_def)

text \<open>
  Claim C6, on the code. A record whose \<open>fen\<close> field is no FEN reaches the handler; the
  engine answers \<open>false\<close> without throwing and keeps its position. \<open>loadFen\<close> then
  returns \<open>true\<close> and logs nothing, and the handler calls \<open>syncBoard\<close> (its two log lines
  are the effects); only the position is left as the claim says.
\<close>

theorem invalid_fen_not_reported:
  "loadFen script_engine ''not a fen'' (pawn_e2, []) = (True, [], (pawn_e2, []))
   \<and> fst (space_state_changed script_engine bare_parse lobby [''chess_game_lobby'']
           (store_with ''not a fen'') (showing (pawn_e2, [])))
     = [SyncStart, SyncDone]
   \<and> chess (snd (space_state_changed script_engine bare_parse lobby [''chess_game_lobby'']
           (store_with ''not a fen'') (showing (pawn_e2, []))))
     = (pawn_e2, [])"
  by code_simp

lemma initial_read_loads:
  assumes "\<not> listenersSetup st"
    and "getSpaceStateValue polls spaceState (stateKey cfg) = Some (Some v)" and "v \<noteq> []"
    and "parse v = FenField (Some f)" and "f \<noteq> []"
  shows "setupBanterStateListeners E parse cfg polls spaceState st
         = Some (fst (snd (loadFen E f (chess st)))
                 @ fst (syncBoard E (st\<lparr>listenersSetup := True, chess := snd (snd (loadFen E f (chess st)))\<rparr>)),
                 snd (syncBoard E (st\<lparr>listenersSetup := True, chess := snd (snd (loadFen E f (chess st)))\<rparr>)))"
  using assms
  by (simp add: setupBanterStateListeners_def Let_def split: prod.splits)

lemma remote_reset_resets:
  assumes "delivered parse cfg changes spaceState = Some (FenField (Some ''reset''))"
  shows "space_state_changed E parse cfg changes spaceState st
         = (fst (syncBoard E (st\<lparr>chess := chess_reset E (chess st)\<rparr>)),
            clearSelection cfg (snd (syncBoard E (st\<lparr>chess := chess_reset E (chess st)\<rparr>))))"
  unfolding space_state_changed_delivered using assms by simp

lemma showing_chess: "chess (showing c) = c"
  by (simp add: showing_def generateTiles_def init_state_def syncBoard_frame)

text \<open>
  Claim C5. The \<open>space-state-changed\<close> handler special-cases \<open>reset\<close>
  (\<open>remote_reset_resets\<close>); the initial read does not: whatever truthy \<open>fen\<close>
  field it finds, \<open>reset\<close> included, goes to \<open>loadFen\<close> (\<open>initial_read_loads\<close>). At a
  client whose engine is not at the starting position and whose store holds the reset
  sentinel, the initial read hands \<open>reset\<close> to the loader, which rejects it, and the
  position stays what it was; the handler, given the same store, resets the engine.
\<close>

theorem initial_read_of_reset:
  "map_option (\<lambda>r. (fst r, chess (snd r)))
     (setupBanterStateListeners script_engine bare_parse lobby [False, True] (store_with ''reset'')
        (showing (pawn_e4, [])))
   = Some ([SyncStart, SyncDone], (pawn_e4, []))
   \<and> loadFen script_engine ''reset'' (pawn_e4, []) = (True, [], (pawn_e4, []))
   \<and> chess (snd (space_state_changed script_engine bare_parse lobby [''chess_game_lobby'']
           (store_with ''reset'') (showing (pawn_e4, []))))
     = (start_fen, [])"
proof -
  have a: "map_option (\<lambda>r. (fst r, chess (snd r)))
     (setupBanterStateListeners script_engine bare_parse lobby [False, True] (store_with ''reset'')
        (showing (pawn_e4, [])))
   = Some ([SyncStart, SyncDone], (pawn_e4, []))"
    by code_simp
  have b: "loadFen script_engine ''reset'' (pawn_e4, []) = (True, [], (pawn_e4, []))"
    by code_simp
  have d: "delivered bare_parse lobby [''chess_game_lobby''] (store_with ''reset'')
           = Some (FenField (Some ''reset''))"
    by code_simp
  have c: "chess (snd (space_state_changed script_engine bare_parse lobby [''chess_game_lobby'']
           (store_with ''reset'') (showing (pawn_e4, []))))
     = (start_fen, [])"
    unfolding remote_reset_resets [OF d]
    by (simp add: clearSelection_def syncBoard_frame showing_chess script_engine_def)
  show ?thesis using a b c by simp
qed

section \<open>Selection\<close>

declare handleSquareClick.simps [simp del]

lemma clearSelection_idle: "selectedSquare (clearSelection cfg st) = None"
  by (simp add: clearSelection_def)

lemma handleSquareClick_idle:
  assumes "\<not> truthy (selectedSquare st)"
  shows "handleSquareClick E cfg squareId st
         = (if chess_get E squareId (chess st)
            then ([],
                  st\<lparr>selectedSquare := Some squareId,
                     tiles :=
                       fold (\<lambda>m_to. setMaterialColor cfg m_to COLORS_valid)
                         (chess_moves E squareId (chess st))
                         (setMaterialColor cfg squareId COLORS_selected (tiles st))\<rparr>)
            else ([], st))"
  using assms by (subst handleSquareClick.simps) simp

text \<open>What \<open>clearSelection\<close> does to the tiles.\<close>

lemma fold_setMaterialColor:
  "distinct (map f xs) \<Longrightarrow>
   fold (\<lambda>a. setMaterialColor cfg (f a) (g a)) xs ts sid
   = (case find (\<lambda>a. f a = sid) xs of
        None \<Rightarrow> ts sid
      | Some a \<Rightarrow> map_option (\<lambda>c. material_color cfg (g a)) (ts sid))"
proof (induction xs arbitrary: ts)
  case Nil
  then show ?case by simp
next
  case (Cons a xs)
  have d: "distinct (map f xs)" and n: "f a \<notin> f ` set xs" using Cons.prems by auto
  show ?case
  proof (cases "f a = sid")
    case True
    have "\<not> (\<exists>b. b \<in> set xs \<and> f b = sid)"
    proof
      assume "\<exists>b. b \<in> set xs \<and> f b = sid"
      then obtain b where "b \<in> set xs" "f b = f a" using True by auto
      then have "f a \<in> f ` set xs" by (metis imageI)
      then show False using n by simp
    qed
    then have "find (\<lambda>b. f b = sid) xs = None" unfolding find_None_iff .
    then show ?thesis
      using True Cons.IH [OF d] by (simp add: setMaterialColor_def split: option.splits)
  next
    case False
    then have "setMaterialColor cfg (f a) (g a) ts sid = ts sid"
      by (simp add: setMaterialColor_def split: option.splits)
    then show ?thesis using False Cons.IH [OF d] by (simp split: option.splits)
  qed
qed

lemma find_distinct:
  "distinct (map f xs) \<Longrightarrow> a \<in> set xs \<Longrightarrow> find (\<lambda>b. f b = f a) xs = Some a"
  by (induction xs) (auto simp: rev_image_eqI)

lemma tile_ids_distinct:
  "distinct (map (\<lambda>xz. tile_id (fst xz) (snd xz)) (List.product [0..<8] [0..<8]))"
  by code_simp

lemma clearSelection_tiles:
  assumes "x < 8" "z < 8"
  shows "tiles (clearSelection cfg st) (tile_id x z)
         = map_option (\<lambda>c. material_color cfg (base_color x z)) (tiles st (tile_id x z))"
proof -
  have m: "(x, z) \<in> set (List.product [0..<8] [0..<8])" using assms by simp
  have "find (\<lambda>b. tile_id (fst b) (snd b) = tile_id x z) (List.product [0..<8] [0..<8]) = Some (x, z)"
    using find_distinct [OF tile_ids_distinct m] by simp
  then show ?thesis
    unfolding clearSelection_def
    by (simp add: fold_setMaterialColor [OF tile_ids_distinct])
qed

lemma clearSelection_other_tiles:
  assumes "sid \<notin> (\<lambda>xz. tile_id (fst xz) (snd xz)) ` set (List.product [0..<8] [0..<8])"
  shows "tiles (clearSelection cfg st) sid = tiles st sid"
proof -
  have "find (\<lambda>b. tile_id (fst b) (snd b) = sid) (List.product [0..<8] [0..<8]) = None"
    using assms unfolding find_None_iff by blast
  then show ?thesis
    unfolding clearSelection_def
    by (simp add: fold_setMaterialColor [OF tile_ids_distinct])
qed

text \<open>What a highlight does to the tiles.\<close>

lemma setMaterialColor_at:
  "setMaterialColor cfg sq hex ts sid
   = (if sid = sq then map_option (\<lambda>c. material_color cfg hex) (ts sid) else ts sid)"
  by (simp add: setMaterialColor_def split: option.splits)

lemma fold_highlight:
  "fold (\<lambda>m_to. setMaterialColor cfg m_to hex) ms ts sid
   = (if sid \<in> set ms then map_option (\<lambda>c. material_color cfg hex) (ts sid) else ts sid)"
proof (induction ms arbitrary: ts)
  case Nil
  then show ?case by simp
next
  case (Cons m ms)
  have step: "fold (\<lambda>m_to. setMaterialColor cfg m_to hex) (m # ms) ts sid
        = (if sid \<in> set ms
           then map_option (\<lambda>c. material_color cfg hex) (setMaterialColor cfg m hex ts sid)
           else setMaterialColor cfg m hex ts sid)"
    using Cons.IH [of "setMaterialColor cfg m hex ts"] by simp
  show ?case
    unfolding step by (simp add: setMaterialColor_at option.map_comp comp_def)
qed

lemma reselect_tiles:
  assumes "x < 8" "z < 8"
  shows "fold (\<lambda>m_to. setMaterialColor cfg m_to COLORS_valid) ms
           (setMaterialColor cfg squareId COLORS_selected (tiles (clearSelection cfg st)))
           (tile_id x z)
         = map_option
             (\<lambda>c. material_color cfg
                    (if tile_id x z \<in> set ms then COLORS_valid
                     else if tile_id x z = squareId then COLORS_selected
                     else base_color x z))
             (tiles st (tile_id x z))"
  unfolding fold_highlight setMaterialColor_at clearSelection_tiles [OF assms]
  by (simp add: option.map_comp comp_def)

text \<open>
  Claim C7. With a square \<open>s\<close> selected, activating a square tries the move from \<open>s\<close>
  to it with promotion \<open>q\<close>. On success the new position is published under the
  instance's key, the board is synced, no square is selected any more and every tile of
  the board is back to its base colour. On failure without an occupant on the activated
  square: nothing is published or synced, no square is selected and every tile is back to
  its base colour. On failure with an occupant: the activated square is the selection,
  its tile has the selected colour, the tiles of its legal destinations have the valid
  colour, and every other tile has its base colour.
\<close>

theorem click_with_selection:
  assumes "selectedSquare st = Some s" and "s \<noteq> []"
    and "makeMove E s squareId CHR ''q'' (chess st) = (ok, evs, c')"
  shows "(ok \<longrightarrow>
            handleSquareClick E cfg squareId st
            = (evs @ SetPublicSpaceProps (stateKey cfg) (chess_fen E c')
                 # fst (syncBoard E (st\<lparr>chess := c'\<rparr>)),
               clearSelection cfg (snd (syncBoard E (st\<lparr>chess := c'\<rparr>))))
            \<and> selectedSquare (snd (handleSquareClick E cfg squareId st)) = None
            \<and> (\<forall>x<8. \<forall>z<8.
                  tiles (snd (handleSquareClick E cfg squareId st)) (tile_id x z)
                  = map_option (\<lambda>c. material_color cfg (base_color x z)) (tiles st (tile_id x z))))
       \<and> (\<not> ok \<and> \<not> chess_get E squareId c' \<longrightarrow>
            handleSquareClick E cfg squareId st = (evs, clearSelection cfg (st\<lparr>chess := c'\<rparr>))
            \<and> selectedSquare (snd (handleSquareClick E cfg squareId st)) = None
            \<and> (\<forall>x<8. \<forall>z<8.
                  tiles (snd (handleSquareClick E cfg squareId st)) (tile_id x z)
                  = map_option (\<lambda>c. material_color cfg (base_color x z)) (tiles st (tile_id x z))))
       \<and> (\<not> ok \<and> chess_get E squareId c' \<longrightarrow>
            fst (handleSquareClick E cfg squareId st) = evs
            \<and> chess (snd (handleSquareClick E cfg squareId st)) = c'
            \<and> pieces (snd (handleSquareClick E cfg squareId st)) = pieces st
            \<and> selectedSquare (snd (handleSquareClick E cfg squareId st)) = Some squareId
            \<and> (\<forall>x<8. \<forall>z<8.
                  tiles (snd (handleSquareClick E cfg squareId st)) (tile_id x z)
                  = map_option
                      (\<lambda>c. material_color cfg
                             (if tile_id x z \<in> set (chess_moves E squareId c') then COLORS_valid
                              else if tile_id x z = squareId then COLORS_selected
                              else base_color x z))
                      (tiles st (tile_id x z))))"
proof -
  have idle: "\<not> truthy (selectedSquare (clearSelection cfg (st\<lparr>chess := c'\<rparr>)))"
    by (simp add: clearSelection_idle truthy_def)
  have c: "chess (clearSelection cfg (st\<lparr>chess := c'\<rparr>)) = c'"
    "pieces (clearSelection cfg (st\<lparr>chess := c'\<rparr>)) = pieces st"
    by (simp_all add: clearSelection_def)
  have e: "handleSquareClick E cfg squareId st
           = (if ok
              then (evs @ SetPublicSpaceProps (stateKey cfg) (chess_fen E c')
                      # fst (syncBoard E (st\<lparr>chess := c'\<rparr>)),
                    clearSelection cfg (snd (syncBoard E (st\<lparr>chess := c'\<rparr>))))
              else if chess_get E squareId c'
              then (evs @ fst (handleSquareClick E cfg squareId (clearSelection cfg (st\<lparr>chess := c'\<rparr>))),
                    snd (handleSquareClick E cfg squareId (clearSelection cfg (st\<lparr>chess := c'\<rparr>))))
              else (evs, clearSelection cfg (st\<lparr>chess := c'\<rparr>)))"
    by (subst handleSquareClick.simps)
      (simp add: assms truthy_def stateKey_def Let_def split: prod.splits)
  have t1: "tiles (clearSelection cfg (snd (syncBoard E (st\<lparr>chess := c'\<rparr>)))) (tile_id x z)
            = map_option (\<lambda>c. material_color cfg (base_color x z)) (tiles st (tile_id x z))"
    if "x < 8" "z < 8" for x z
    using clearSelection_tiles [OF that, of cfg "snd (syncBoard E (st\<lparr>chess := c'\<rparr>))"]
    by (simp add: syncBoard_frame)
  have t2: "tiles (clearSelection cfg (st\<lparr>chess := c'\<rparr>)) (tile_id x z)
            = map_option (\<lambda>c. material_color cfg (base_color x z)) (tiles st (tile_id x z))"
    if "x < 8" "z < 8" for x z
    using clearSelection_tiles [OF that, of cfg "st\<lparr>chess := c'\<rparr>"] by simp
  have t3: "fold (\<lambda>m_to. setMaterialColor cfg m_to COLORS_valid) (chess_moves E squareId c')
              (setMaterialColor cfg squareId COLORS_selected
                 (tiles (clearSelection cfg (st\<lparr>chess := c'\<rparr>)))) (tile_id x z)
            = map_option
                (\<lambda>c. material_color cfg
                       (if tile_id x z \<in> set (chess_moves E squareId c') then COLORS_valid
                        else if tile_id x z = squareId then COLORS_selected
                        else base_color x z))
                (tiles st (tile_id x z))"
    if "x < 8" "z < 8" for x z
    using reselect_tiles [OF that, of cfg "chess_moves E squareId c'" squareId "st\<lparr>chess := c'\<rparr>"]
    by simp
  show ?thesis
    unfolding e handleSquareClick_idle [OF idle] c
    by (simp add: clearSelection_idle t1 t2 t3 c)
qed

theorem click_with_selection_witness:
  "tiles about_to_move ''e2'' = Some (COLORS_selected, 1)
   \<and> tiles about_to_move ''e4'' = Some (COLORS_valid, 1)
   \<and> fst (handleSquareClick script_engine lobby ''e4'' about_to_move)
     = [SetPublicSpaceProps ''chess_game_lobby'' pawn_e4, SyncStart,
        Relocate \<lparr>oid = 1, pieceType = CHR ''P''\<rparr> (Some (1 / 4), Some (3 / 20), Some (1 / 4)),
        SyncDone]
   \<and> selectedSquare (snd (handleSquareClick script_engine lobby ''e4'' about_to_move)) = None
   \<and> tiles (snd (handleSquareClick script_engine lobby ''e4'' about_to_move)) ''e2''
     = Some (COLORS_white, 1)
   \<and> tiles (snd (handleSquareClick script_engine lobby ''e4'' about_to_move)) ''e4''
     = Some (COLORS_white, 1)
   \<and> fst (handleSquareClick script_engine lobby ''a1'' about_to_move) = []
   \<and> selectedSquare (snd (handleSquareClick script_engine lobby ''a1'' about_to_move)) = Some ''a1''
   \<and> tiles (snd (handleSquareClick script_engine lobby ''a1'' about_to_move)) ''a1''
     = Some (COLORS_selected, 1)
   \<and> tiles (snd (handleSquareClick script_engine lobby ''a1'' about_to_move)) ''e2''
     = Some (COLORS_white, 1)"
proof -
  have s: "selectedSquare about_to_move = Some ''e2''" by code_simp
  have ne: "''e2'' \<noteq> []" by simp
  have m: "makeMove script_engine ''e2'' ''e4'' CHR ''q'' (chess about_to_move)
           = (True, [], (pawn_e4, []))"
    by code_simp
  have m2: "makeMove script_engine ''e2'' ''a1'' CHR ''q'' (chess about_to_move)
           = (False, [], chess about_to_move)"
    by code_simp
  have g: "chess_get script_engine ''a1'' (chess about_to_move)" by code_simp
  have mv: "chess_moves script_engine ''a1'' (chess about_to_move) = []" by code_simp
  have k: "stateKey lobby = ''chess_game_lobby''" by code_simp
  have f: "chess_fen script_engine (pawn_e4, []) = pawn_e4" by code_simp
  have o: "fst (syncBoard script_engine (about_to_move\<lparr>chess := (pawn_e4, [])\<rparr>))
           = [SyncStart,
              Relocate \<lparr>oid = 1, pieceType = CHR ''P''\<rparr> (Some (1 / 4), Some (3 / 20), Some (1 / 4)),
              SyncDone]"
    by code_simp
  have ids: "tile_id 4 1 = ''e2''" "tile_id 4 3 = ''e4''" "tile_id 0 0 = ''a1''" by code_simp+
  have before: "tiles about_to_move ''e2'' = Some (COLORS_selected, 1)"
    "tiles about_to_move ''e4'' = Some (COLORS_valid, 1)"
    "tiles about_to_move ''a1'' = Some (COLORS_black, 1)"
    by code_simp+
  have col: "material_color lobby (base_color 4 1) = (COLORS_white, 1)"
    "material_color lobby (base_color 4 3) = (COLORS_white, 1)"
    "material_color lobby COLORS_selected = (COLORS_selected, 1)"
    by code_simp+
  note t = click_with_selection [OF s ne m, of lobby]
  note u = click_with_selection [OF s ne m2, of lobby]
  from t have te: "handleSquareClick script_engine lobby ''e4'' about_to_move
        = ([] @ SetPublicSpaceProps (stateKey lobby) (chess_fen script_engine (pawn_e4, []))
             # fst (syncBoard script_engine (about_to_move\<lparr>chess := (pawn_e4, [])\<rparr>)),
           clearSelection lobby (snd (syncBoard script_engine (about_to_move\<lparr>chess := (pawn_e4, [])\<rparr>))))"
    and tq: "\<forall>x<8. \<forall>z<8.
        tiles (snd (handleSquareClick script_engine lobby ''e4'' about_to_move)) (tile_id x z)
        = map_option (\<lambda>c. material_color lobby (base_color x z)) (tiles about_to_move (tile_id x z))"
    by blast+
  from u g have uf: "fst (handleSquareClick script_engine lobby ''a1'' about_to_move) = []"
    and us: "selectedSquare (snd (handleSquareClick script_engine lobby ''a1'' about_to_move)) = Some ''a1''"
    and uq: "\<forall>x<8. \<forall>z<8.
        tiles (snd (handleSquareClick script_engine lobby ''a1'' about_to_move)) (tile_id x z)
        = map_option
            (\<lambda>c. material_color lobby
                   (if tile_id x z \<in> set (chess_moves script_engine ''a1'' (chess about_to_move))
                    then COLORS_valid
                    else if tile_id x z = ''a1'' then COLORS_selected else base_color x z))
            (tiles about_to_move (tile_id x z))"
    by blast+
  have t1: "tiles (snd (handleSquareClick script_engine lobby ''e4'' about_to_move)) ''e2''
            = map_option (\<lambda>c. material_color lobby (base_color 4 1)) (tiles about_to_move ''e2'')"
    using tq [rule_format, of 4 1, unfolded ids] by simp
  have t2: "tiles (snd (handleSquareClick script_engine lobby ''e4'' about_to_move)) ''e4''
            = map_option (\<lambda>c. material_color lobby (base_color 4 3)) (tiles about_to_move ''e4'')"
    using tq [rule_format, of 4 3, unfolded ids] by simp
  have u1: "tiles (snd (handleSquareClick script_engine lobby ''a1'' about_to_move)) ''a1''
            = map_option (\<lambda>c. material_color lobby COLORS_selected) (tiles about_to_move ''a1'')"
    using uq [rule_format, of 0 0, unfolded ids mv] by simp
  have u2: "tiles (snd (handleSquareClick script_engine lobby ''a1'' about_to_move)) ''e2''
            = map_option (\<lambda>c. material_color lobby (base_color 4 1)) (tiles about_to_move ''e2'')"
    using uq [rule_format, of 4 1, unfolded ids mv] by simp
  have t3: "fst (handleSquareClick script_engine lobby ''e4'' about_to_move)
            = [SetPublicSpaceProps ''chess_game_lobby'' pawn_e4, SyncStart,
               Relocate \<lparr>oid = 1, pieceType = CHR ''P''\<rparr> (Some (1 / 4), Some (3 / 20), Some (1 / 4)),
               SyncDone]"
    "selectedSquare (snd (handleSquareClick script_engine lobby ''e4'' about_to_move)) = None"
    unfolding te by (simp_all add: k f o clearSelection_idle)
  have u3: "fst (handleSquareClick script_engine lobby ''a1'' about_to_move) = []"
    "selectedSquare (snd (handleSquareClick script_engine lobby ''a1'' about_to_move)) = Some ''a1''"
    using uf us by simp_all
  show ?thesis
    using t1 t2 u1 u2 t3 u3 unfolding before col by simp
qed

end
